theory Spec2Isabelle
  imports Main "HOL-Library.AList"
begin

section \<open>JavaScript numbers and strings, as far as the generator uses them\<close>

text \<open>
  A JavaScript number is modelled as an integer or \<open>NaN\<close>: every number the generator
  computes is an integer, and arithmetic on doubles is exact on integers below \<open>2^53\<close> in
  magnitude, a range that \<open>Date.now()\<close> never leaves. Only \<open>parseInt\<close> can meet a
  larger number (the decimal numeral of a 32-digit hexadecimal identifier); there the
  rounding to a double is written out. Strings are lists of 8-bit characters (ASCII).
\<close>

datatype jsnum = NaN | Num int

datatype error = TypeError | Error string | Rejected string

text \<open>The value of a character as a digit (\<open>0-9\<close>, \<open>a-z\<close>, \<open>A-Z\<close>), as \<open>parseInt\<close> reads it.\<close>

definition digitValue :: "char \<Rightarrow> nat option" where
  "digitValue c =
     (let n = (of_char c :: nat)
      in if 48 \<le> n \<and> n \<le> 57 then Some (n - 48)
         else if 97 \<le> n \<and> n \<le> 122 then Some (n - 87)
         else if 65 \<le> n \<and> n \<le> 90 then Some (n - 55)
         else None)"

definition isDigitIn :: "nat \<Rightarrow> char \<Rightarrow> bool" where
  "isDigitIn R c = (case digitValue c of None \<Rightarrow> False | Some d \<Rightarrow> d < R)"

definition digitChar :: "nat \<Rightarrow> char" where
  "digitChar d = (if d < 10 then char_of (48 + d) else char_of (87 + d))"

definition isWhiteSpace :: "char \<Rightarrow> bool" where
  "isWhiteSpace c = ((of_char c :: nat) \<in> {9, 10, 11, 12, 13, 32})"

text \<open>Big-endian digit strings read in a radix (the mathematical value of a numeral).\<close>

definition strVal :: "nat \<Rightarrow> string \<Rightarrow> nat" where
  "strVal R s = foldl (\<lambda>acc c. acc * R + (case digitValue c of None \<Rightarrow> 0 | Some d \<Rightarrow> d)) 0 s"

text \<open>
  Rounding of a natural number to the nearest IEEE-754 double (53-bit significand, ties to
  even). Numbers below \<open>2^53\<close> are exact. \<open>parseInt\<close> returns a double.
\<close>

fun bitlen :: "nat \<Rightarrow> nat" where
  "bitlen n = (if n = 0 then 0 else Suc (bitlen (n div 2)))"

declare bitlen.simps [simp del]

definition toDouble :: "nat \<Rightarrow> nat" where
  "toDouble n =
     (if bitlen n \<le> 53 then n
      else let e = bitlen n - 53; q = n div 2 ^ e; r = n mod 2 ^ e; h = 2 ^ (e - 1)
           in if r > h \<or> (r = h \<and> odd q) then (q + 1) * 2 ^ e else q * 2 ^ e)"

text \<open>
  \<open>parseInt(s, radix)\<close>; radix \<open>0\<close> stands for a call without a radix. Leading white
  space and a sign are skipped, a \<open>0x\<close> prefix selects or confirms radix 16, and the longest
  prefix of digits is read; no digit gives \<open>NaN\<close>.
\<close>

definition stripHexPrefix :: "string \<Rightarrow> string option" where
  "stripHexPrefix s =
     (case s of
        a # b # r \<Rightarrow> if a = CHR ''0'' \<and> (b = CHR ''x'' \<or> b = CHR ''X'') then Some r else None
      | _ \<Rightarrow> None)"

definition parseInt :: "string \<Rightarrow> nat \<Rightarrow> jsnum" where
  "parseInt s radix =
     (let s1 = dropWhile isWhiteSpace s;
          neg = (case s1 of c # _ \<Rightarrow> c = CHR ''-'' | [] \<Rightarrow> False);
          s2 = (case s1 of c # r \<Rightarrow> if c = CHR ''-'' \<or> c = CHR ''+'' then r else s1 | [] \<Rightarrow> s1);
          R = (if radix = 0 then (case stripHexPrefix s2 of Some _ \<Rightarrow> 16 | None \<Rightarrow> 10) else radix);
          s3 = (if (radix = 0 \<or> radix = 16) then (case stripHexPrefix s2 of Some r \<Rightarrow> r | None \<Rightarrow> s2)
                else s2)
      in if R < 2 \<or> 36 < R then NaN
         else let ds = takeWhile (isDigitIn R) s3
              in if ds = [] then NaN
                 else if neg then Num (- int (toDouble (strVal R ds)))
                 else Num (int (toDouble (strVal R ds))))"

text \<open>\<open>Number.prototype.toString(radix)\<close> on integers and \<open>NaN\<close>.\<close>

function natToString :: "nat \<Rightarrow> nat \<Rightarrow> string" where
  "natToString R n =
     (if n < R \<or> R < 2 then [digitChar n] else natToString R (n div R) @ [digitChar (n mod R)])"
  by pat_completeness auto
termination
  by (relation "measure (\<lambda>(R, n). n)") auto

declare natToString.simps [simp del]

definition numToString :: "nat \<Rightarrow> jsnum \<Rightarrow> string" where
  "numToString R x =
     (case x of
        NaN \<Rightarrow> ''NaN''
      | Num i \<Rightarrow> if i < 0 then CHR ''-'' # natToString R (nat (- i)) else natToString R (nat i))"

text \<open>\<open>x % m\<close> for a positive integer \<open>m\<close>: the remainder takes the sign of the dividend.\<close>

definition jsRem :: "jsnum \<Rightarrow> int \<Rightarrow> jsnum" where
  "jsRem x m =
     (case x of NaN \<Rightarrow> NaN
      | Num i \<Rightarrow> if i < 0 then Num (- ((- i) mod m)) else Num (i mod m))"

definition jsAdd :: "jsnum \<Rightarrow> int \<Rightarrow> jsnum" where
  "jsAdd x k = (case x of NaN \<Rightarrow> NaN | Num i \<Rightarrow> Num (i + k))"

definition padStart :: "nat \<Rightarrow> char \<Rightarrow> string \<Rightarrow> string" where
  "padStart n c s = replicate (n - length s) c @ s"

text \<open>\<open>s.substring(a, b)\<close> with \<open>a \<le> b\<close>: a negative start counts as 0.\<close>

definition substring :: "string \<Rightarrow> int \<Rightarrow> int \<Rightarrow> string" where
  "substring s a b = (let a' = nat (max 0 a); b' = nat (max 0 b) in
     if a' \<le> b' then take (b' - a') (drop a' s) else take (a' - b') (drop b' s))"

definition toLowerCase :: "string \<Rightarrow> string" where
  "toLowerCase s =
     map (\<lambda>c. let n = (of_char c :: nat) in if 65 \<le> n \<and> n \<le> 90 then char_of (n + 32) else c) s"

section \<open>snowflake.js: base conversion on digit arrays\<close>

text \<open>
  Digit arrays hold the least significant digit first. \<open>add\<close> is the carry loop of the
  source; its only callers pass base 10, and for a base below 2 (where the source's loop
  would not end) the model stops at once.
\<close>

function add_loop :: "nat list \<Rightarrow> nat list \<Rightarrow> nat \<Rightarrow> nat \<Rightarrow> nat \<Rightarrow> nat list \<Rightarrow> nat list" where
  "add_loop x y base carry i z =
     (if 2 \<le> base \<and> (i < max (length x) (length y) \<or> carry \<noteq> 0)
      then let xi = (if i < length x then x ! i else 0);
               yi = (if i < length y then y ! i else 0);
               zi = carry + xi + yi
           in add_loop x y base (zi div base) (i + 1) (z @ [zi mod base])
      else z)"
  by pat_completeness auto
termination
  by (relation "measures [\<lambda>(x, y, base, carry, i, z). max (length x) (length y) - i,
                          \<lambda>(x, y, base, carry, i, z). carry]") auto

declare add_loop.simps [simp del]

definition add :: "nat list \<Rightarrow> nat list \<Rightarrow> nat \<Rightarrow> nat list" where
  "add x y base = add_loop x y base 0 0 []"

function multiply_loop :: "nat \<Rightarrow> nat list \<Rightarrow> nat list \<Rightarrow> nat \<Rightarrow> nat list" where
  "multiply_loop num result pow base =
     (let result' = (if odd num then add result pow base else result);
          num' = num div 2
      in if num' = 0 then result' else multiply_loop num' result' (add pow pow base) base)"
  by pat_completeness auto
termination
  by (relation "measure (\<lambda>(num, result, pow, base). num)") auto

declare multiply_loop.simps [simp del]

definition multiplyByNumber :: "nat \<Rightarrow> nat list \<Rightarrow> nat \<Rightarrow> nat list" where
  "multiplyByNumber num x base = (if num = 0 then [] else multiply_loop num [] x base)"

fun parseToDigitsArray_loop :: "string \<Rightarrow> nat \<Rightarrow> nat list option" where
  "parseToDigitsArray_loop [] base = Some []"
| "parseToDigitsArray_loop (c # cs) base =
     (case parseInt [c] base of
        NaN \<Rightarrow> None
      | Num n \<Rightarrow> (case parseToDigitsArray_loop cs base of
                    None \<Rightarrow> None
                  | Some ary \<Rightarrow> Some (nat n # ary)))"

definition parseToDigitsArray :: "string \<Rightarrow> nat \<Rightarrow> nat list option" where
  "parseToDigitsArray str base = parseToDigitsArray_loop (rev str) base"

fun convert_loop :: "nat list \<Rightarrow> nat \<Rightarrow> nat \<Rightarrow> nat list \<Rightarrow> nat list \<Rightarrow> nat list" where
  "convert_loop [] fromBase toBase outArray pow = outArray"
| "convert_loop (d # ds) fromBase toBase outArray pow =
     convert_loop ds fromBase toBase
       (if d \<noteq> 0 then add outArray (multiplyByNumber d pow toBase) toBase else outArray)
       (multiplyByNumber fromBase pow toBase)"

definition convertBase :: "string \<Rightarrow> nat \<Rightarrow> nat \<Rightarrow> string option" where
  "convertBase str fromBase toBase =
     (case parseToDigitsArray str fromBase of
        None \<Rightarrow> None
      | Some digits \<Rightarrow>
          Some (concat (map (natToString toBase) (rev (convert_loop digits fromBase toBase [] [1])))))"

definition hexToDec :: "string \<Rightarrow> string option" where
  "hexToDec hexStr =
     (let h = (if take 2 hexStr = ''0x'' then drop 2 hexStr else hexStr)
      in convertBase (toLowerCase h) 16 10)"

section \<open>snowflake.js: the generator\<close>

text \<open>
  The generator's fields. \<open>Math.random\<close> is outside the program: the constructor takes
  \<open>rnd0\<close>, the value of \<open>Math.floor(Math.random() * 1023)\<close> (an integer from 0 to 1022),
  and \<open>draw\<close>, where \<open>draw i\<close> is the value of the i-th \<open>Math.floor(Math.random() * 10)\<close>
  of \<open>generateRandomId\<close>.
\<close>

record snowflake =
  seq :: nat
  rnd :: nat
  offset :: int
  lastTime :: int
  instanceId :: string
  instanceNumber :: string

record options =
  opt_offset :: "int option"
  opt_instanceId :: "string option"

definition generateRandomId :: "(nat \<Rightarrow> nat) \<Rightarrow> nat \<Rightarrow> string" where
  "generateRandomId draw len = concat (map (\<lambda>i. natToString 10 (draw i)) [0..<len])"

definition Snowflake :: "nat \<Rightarrow> (nat \<Rightarrow> nat) \<Rightarrow> options \<Rightarrow> snowflake" where
  "Snowflake rnd0 draw opts =
     (let iid0 = (case opt_instanceId opts of
                    None \<Rightarrow> generateRandomId draw 4
                  | Some s \<Rightarrow> if s = [] then generateRandomId draw 4 else s);
          iid = padStart 32 CHR ''0'' iid0;
          instNumber = jsAdd (jsRem (parseInt (case hexToDec iid of None \<Rightarrow> ''null'' | Some d \<Rightarrow> d) 0) 24) 1000
      in \<lparr> seq = 0, rnd = rnd0,
           offset = (case opt_offset opts of None \<Rightarrow> 0 | Some k \<Rightarrow> k),
           lastTime = 0, instanceId = iid,
           instanceNumber = padStart 5 CHR ''0'' (numToString 2 instNumber) \<rparr>)"

text \<open>The loop that turns the bit string into hexadecimal, four characters at a time from the right.\<close>

function nibbles :: "string \<Rightarrow> int \<Rightarrow> string \<Rightarrow> string" where
  "nibbles bid i ident =
     (if i > 0 then nibbles bid (i - 4) (numToString 16 (parseInt (substring bid (i - 4) i) 2) @ ident)
      else ident)"
  by pat_completeness auto
termination
  by (relation "measure (\<lambda>(bid, i, ident). nat i)") auto

declare nibbles.simps [simp del]

definition epoch :: int where
  "epoch = 1119484800000"

text \<open>The bit string \<open>bid\<close> of \<open>generate\<close>, from the fields as they are after the sequence step.\<close>

definition bid_of :: "snowflake \<Rightarrow> int \<Rightarrow> string" where
  "bid_of s time =
     (let bTime = numToString 2 (Num (time - offset s));
          bSeq = padStart 12 CHR ''0'' (natToString 2 (seq s));
          bRnd = padStart 10 CHR ''0'' (natToString 2 (rnd s))
      in bTime @ instanceNumber s @ bSeq @ bRnd)"

text \<open>
  \<open>generate\<close> reads the clock (\<open>now\<close> is the value of \<open>Date.now()\<close>), updates \<open>seq\<close> and
  \<open>lastTime\<close> and returns the identifier; \<open>null.padStart\<close> is a TypeError, raised after the
  fields were updated.
\<close>

definition generate :: "snowflake \<Rightarrow> int \<Rightarrow> (error + string) \<times> snowflake" where
  "generate s now =
     (let time0 = now - epoch;
          (sq, time) = (if lastTime s = time0
                        then (if seq s + 1 > 4095 then (0, time0 + 1) else (seq s + 1, time0))
                        else (0, time0));
          s' = s\<lparr>seq := sq, lastTime := time\<rparr>;
          bid = bid_of s' time;
          ident = nibbles bid (int (length bid)) []
      in (case hexToDec ident of
            None \<Rightarrow> (Inl TypeError, s')
          | Some d \<Rightarrow> (Inr (take 23 (padStart 23 CHR ''0'' d)), s')))"

section \<open>adapters/mongodb.js: values, schema and the document store\<close>

text \<open>
  JavaScript values as the adapter handles them. An object is the list of its own
  properties in insertion order (keys distinct); numbers are integers; \<open>VObjectId\<close> is an
  identifier made by the database driver.
\<close>

datatype jsval =
    VUndef
  | VNull
  | VBool bool
  | VNum int
  | VStr string
  | VObjectId nat
  | VArr "jsval list"
  | VObj "(string \<times> jsval) list"

type_synonym entity = "(string \<times> jsval) list"

definition getProp :: "entity \<Rightarrow> string \<Rightarrow> jsval" where
  "getProp obj k = (case map_of obj k of None \<Rightarrow> VUndef | Some v \<Rightarrow> v)"

text \<open>\<open>{...target, ...source}\<close>: the properties of \<open>source\<close> are assigned onto \<open>target\<close> in order.\<close>

definition spread :: "entity \<Rightarrow> entity \<Rightarrow> entity" where
  "spread target source = foldl (\<lambda>obj (k, v). AList.update k v obj) target source"

definition truthy :: "jsval \<Rightarrow> bool" where
  "truthy v = (case v of VUndef \<Rightarrow> False | VNull \<Rightarrow> False | VBool b \<Rightarrow> b
                | VNum n \<Rightarrow> n \<noteq> 0 | VStr s \<Rightarrow> s \<noteq> [] | _ \<Rightarrow> True)"

definition typeof :: "jsval \<Rightarrow> string" where
  "typeof v = (case v of VUndef \<Rightarrow> ''undefined'' | VBool _ \<Rightarrow> ''boolean'' | VNum _ \<Rightarrow> ''number''
                | VStr _ \<Rightarrow> ''string'' | _ \<Rightarrow> ''object'')"

definition isArray :: "jsval \<Rightarrow> bool" where
  "isArray v = (case v of VArr _ \<Rightarrow> True | _ \<Rightarrow> False)"

fun joinWith :: "string \<Rightarrow> string list \<Rightarrow> string" where
  "joinWith sep [] = []"
| "joinWith sep [x] = x"
| "joinWith sep (x # y # ys) = x @ sep @ joinWith sep (y # ys)"

text \<open>The string a value becomes inside a template literal.\<close>

fun toStr :: "jsval \<Rightarrow> string" where
  "toStr VUndef = ''undefined''"
| "toStr VNull = ''null''"
| "toStr (VBool b) = (if b then ''true'' else ''false'')"
| "toStr (VNum n) = numToString 10 (Num n)"
| "toStr (VStr s) = s"
| "toStr (VObjectId n) = natToString 16 n"
| "toStr (VArr xs) =
     joinWith '','' (map (\<lambda>x. if x = VUndef \<or> x = VNull then [] else toStr x) xs)"
| "toStr (VObj _) = ''[object Object]''"

text \<open>The field descriptors and the primary field that the host service hands to the adapter.\<close>

record fieldProp =
  fp_search :: bool
  fp_type :: string

record field =
  f_name :: string
  f_type :: string
  f_filter :: bool
  f_search :: bool
  f_properties :: "(string \<times> fieldProp) list option"

record primaryField =
  generated :: string
  columnName :: string

record service =
  s_fields :: "field list"
  s_primaryField :: "primaryField option"

record params =
  p_filter :: "entity option"
  p_search :: "string option"
  p_searchFields :: "string list option"
  p_query :: "jsval option"
  p_sort :: "jsval option"
  p_collation :: "jsval option"
  p_offset :: "int option"
  p_limit :: "int option"
  p_hint :: "jsval option"

subsection \<open>The query translator\<close>

definition buildStandardMatch :: "string \<Rightarrow> jsval \<Rightarrow> string \<Rightarrow> jsval" where
  "buildStandardMatch fld vals type =
     (let regexPattern =
            (case vals of
               VArr vs \<Rightarrow> joinWith ''|'' (map (\<lambda>v. ''('' @ toStr v @ '')'') vs)
             | _ \<Rightarrow> toStr vals)
      in if type = ''number''
         then VObj [(''$expr'', VObj [(''$regexMatch'',
                 VObj [(''input'', VObj [(''$toString'', VStr (''$'' @ fld))]),
                       (''regex'', VStr (''.*'' @ regexPattern @ ''.*'')),
                       (''options'', VStr ''i'')])])]
         else VObj [(fld, VObj [(''$regex'', VStr (''.*'' @ regexPattern @ ''.*'')),
                                (''$options'', VStr ''i'')])])"

definition buildStandardStrict :: "string \<Rightarrow> jsval \<Rightarrow> string \<Rightarrow> jsval" where
  "buildStandardStrict fld val type =
     (if type = ''number''
      then VObj [(''$expr'', VObj [(''input'', VObj [(''$toString'', VStr (''$'' @ fld))])])]
      else VObj [(fld, val)])"

definition notNullish :: "jsval \<Rightarrow> bool" where
  "notNullish q = (q \<noteq> VUndef \<and> q \<noteq> VNull)"

text \<open>
  One step of the \<open>reduce\<close> in \<open>processFilterParams\<close>. Destructuring \<open>null\<close> or
  \<open>undefined\<close> is a TypeError; a property read on any other non-object gives \<open>undefined\<close>.
\<close>

definition filterStep :: "service \<Rightarrow> jsval list \<Rightarrow> string \<times> jsval \<Rightarrow> error + jsval list" where
  "filterStep svc queryAccumulator entry =
     (let fld = fst entry; valueObj = snd entry
      in if \<not> list_ex (\<lambda>f. f_filter f \<and> f_name f = fld) (s_fields svc) \<or> valueObj = VStr []
         then Inr queryAccumulator
         else if valueObj = VNull \<or> valueObj = VUndef then Inl TypeError
         else
           let isMatch = (case valueObj of VObj ps \<Rightarrow> getProp ps ''isMatch'' | _ \<Rightarrow> VUndef);
               vals = (case valueObj of VObj ps \<Rightarrow> getProp ps ''values'' | _ \<Rightarrow> VUndef);
               buildMethod = (if truthy isMatch then buildStandardMatch else buildStandardStrict);
               valuesToProcess = (if truthy isMatch then vals else valueObj)
           in if valuesToProcess = VStr [] \<and> \<not> truthy isMatch then Inr queryAccumulator
              else
                let processedValues =
                      (case valuesToProcess of
                         VArr vs \<Rightarrow> filter notNullish (map (\<lambda>v. buildMethod fld v (typeof v)) vs)
                       | _ \<Rightarrow> filter notNullish [buildMethod fld valuesToProcess (typeof valuesToProcess)])
                in if length processedValues > 1
                   then Inr (queryAccumulator @ [VObj [(''$or'', VArr processedValues)]])
                   else if length processedValues = 1
                   then Inr (queryAccumulator @ [processedValues ! 0])
                   else Inr queryAccumulator)"

fun filterReduce :: "service \<Rightarrow> jsval list \<Rightarrow> entity \<Rightarrow> error + jsval list" where
  "filterReduce svc acc [] = Inr acc"
| "filterReduce svc acc (e # es) =
     (case filterStep svc acc e of Inl err \<Rightarrow> Inl err | Inr acc' \<Rightarrow> filterReduce svc acc' es)"

definition processFilterParams :: "service \<Rightarrow> entity option \<Rightarrow> error + jsval list" where
  "processFilterParams svc flt =
     (case flt of None \<Rightarrow> Inr [] | Some entries \<Rightarrow> filterReduce svc [] entries)"

definition processSearchParams :: "service \<Rightarrow> string option \<Rightarrow> string list option \<Rightarrow> jsval list" where
  "processSearchParams svc search searchFields =
     (case search of
        None \<Rightarrow> []
      | Some term \<Rightarrow>
          if term = [] then []
          else
            let isFieldSearchable = (\<lambda>f. f_search f \<and>
                    (case searchFields of None \<Rightarrow> True
                     | Some sf \<Rightarrow> f_name f \<in> set sf \<or> sf = []));
                searchInFields = concat (map (\<lambda>f.
                    (case f_properties f of
                       Some props \<Rightarrow>
                         if f_type f = ''object''
                         then map (\<lambda>(propName, p). (f_name f @ ''.'' @ propName, fp_type p))
                                (filter (\<lambda>(propName, p). fp_search p) props)
                         else [(f_name f, f_type f)]
                     | None \<Rightarrow> [(f_name f, f_type f)]))
                  (filter isFieldSearchable (s_fields svc)));
                searchQueries = map (\<lambda>(name, type). buildStandardMatch name (VStr term) type) searchInFields
            in if searchQueries \<noteq> [] then [VObj [(''$or'', VArr searchQueries)]] else [])"

definition parseParams :: "service \<Rightarrow> params \<Rightarrow> error + jsval" where
  "parseParams svc ps =
     (case processFilterParams svc (p_filter ps) of
        Inl err \<Rightarrow> Inl err
      | Inr fq \<Rightarrow>
          let cq = processSearchParams svc (p_search ps) (p_searchFields ps) @ fq
                     @ (case p_query ps of None \<Rightarrow> [] | Some q \<Rightarrow> if truthy q then [q] else [])
          in Inr (if length cq > 0 then VObj [(''$and'', VArr cq)] else VObj []))"

text \<open>
  \<open>transformSort\<close>: a string stands for the array holding it; an array is reduced to a
  direction object, and an element that is not a string has no \<open>startsWith\<close> (a TypeError);
  anything else is returned as it is.
\<close>

definition sortStep :: "entity \<Rightarrow> jsval \<Rightarrow> error + entity" where
  "sortStep res s =
     (case s of
        VStr str \<Rightarrow> (if take 1 str = ''-'' then Inr (AList.update (drop 1 str) (VNum (- 1)) res)
                     else Inr (AList.update str (VNum 1) res))
      | _ \<Rightarrow> Inl TypeError)"

fun sortReduce :: "entity \<Rightarrow> jsval list \<Rightarrow> error + entity" where
  "sortReduce res [] = Inr res"
| "sortReduce res (s # ss) =
     (case sortStep res s of Inl err \<Rightarrow> Inl err | Inr res' \<Rightarrow> sortReduce res' ss)"

definition transformSort :: "jsval \<Rightarrow> error + jsval" where
  "transformSort srt =
     (let srt' = (case srt of VStr s \<Rightarrow> VArr [VStr s] | _ \<Rightarrow> srt)
      in case srt' of
           VArr ss \<Rightarrow> (case sortReduce [] ss of Inl err \<Rightarrow> Inl err | Inr res \<Rightarrow> Inr (VObj res))
         | _ \<Rightarrow> Inr srt')"

subsection \<open>The collection, as the adapter uses the driver\<close>

text \<open>
  The database is outside the program. A collection is the list of its documents and a
  counter for fresh \<open>_id\<close> values. How a query object selects documents is the store's
  business: \<open>mongoMatches\<close> fixes only the empty query, \<open>$and\<close>, \<open>$or\<close> and the comparison
  of a top-level field with a literal value (equal, or an element of an array value), and
  hands every other query to the parameter \<open>ext\<close>. Ordering is the parameter \<open>order\<close>.
\<close>

record collection =
  docs :: "entity list"
  nextOid :: nat

definition isOperatorKey :: "string \<Rightarrow> bool" where
  "isOperatorKey k = (take 1 k = ''$'')"

definition isLiteral :: "jsval \<Rightarrow> bool" where
  "isLiteral v = (case v of VObj ps \<Rightarrow> \<not> list_ex (\<lambda>(k, _). isOperatorKey k) ps | _ \<Rightarrow> True)"

definition eqMatch :: "entity \<Rightarrow> string \<Rightarrow> jsval \<Rightarrow> bool" where
  "eqMatch doc k v =
     (case map_of doc k of
        None \<Rightarrow> v = VNull
      | Some x \<Rightarrow> x = v \<or> (case x of VArr xs \<Rightarrow> v \<in> set xs | _ \<Rightarrow> False))"

fun mongoMatches :: "(jsval \<Rightarrow> entity \<Rightarrow> bool) \<Rightarrow> jsval \<Rightarrow> entity \<Rightarrow> bool" where
  "mongoMatches ext (VObj []) doc = True"
| "mongoMatches ext (VObj [(k, VArr qs)]) doc =
     (if k = ''$and'' then list_all (\<lambda>q. mongoMatches ext q doc) qs
      else if k = ''$or'' then list_ex (\<lambda>q. mongoMatches ext q doc) qs
      else if \<not> isOperatorKey k \<and> CHR ''.'' \<notin> set k then eqMatch doc k (VArr qs)
      else ext (VObj [(k, VArr qs)]) doc)"
| "mongoMatches ext (VObj [(k, v)]) doc =
     (if \<not> isOperatorKey k \<and> CHR ''.'' \<notin> set k \<and> isLiteral v then eqMatch doc k v
      else ext (VObj [(k, v)]) doc)"
| "mongoMatches ext q doc = ext q doc"

record cursor =
  c_query :: jsval
  c_sort :: "jsval option"
  c_collation :: "jsval option"
  c_skip :: "int option"
  c_limit :: "int option"
  c_hint :: "jsval option"

datatype query = Cursor cursor | CountPromise jsval

definition toArray ::
  "(jsval \<Rightarrow> entity \<Rightarrow> bool) \<Rightarrow> (jsval \<Rightarrow> entity list \<Rightarrow> entity list) \<Rightarrow> collection \<Rightarrow> cursor \<Rightarrow> entity list" where
  "toArray ext order coll c =
     (let found = filter (mongoMatches ext (c_query c)) (docs coll);
          ordered = (case c_sort c of None \<Rightarrow> found | Some s \<Rightarrow> order s found);
          skipped = (case c_skip c of None \<Rightarrow> ordered | Some n \<Rightarrow> drop (nat n) ordered)
      in case c_limit c of None \<Rightarrow> skipped | Some n \<Rightarrow> take (nat n) skipped)"

definition countDocuments :: "(jsval \<Rightarrow> entity \<Rightarrow> bool) \<Rightarrow> collection \<Rightarrow> jsval \<Rightarrow> nat" where
  "countDocuments ext coll q = length (filter (mongoMatches ext q) (docs coll))"

text \<open>
  \<open>createQuery\<close>: in counting mode \<open>q\<close> is the promise that \<open>countDocuments\<close> returns, which
  has no \<open>sort\<close>, \<open>skip\<close>, \<open>limit\<close> or \<open>hint\<close> method; calling \<open>q.hint\<close> on it is a TypeError.
\<close>

definition createQuery :: "service \<Rightarrow> params option \<Rightarrow> bool \<Rightarrow> error + query" where
  "createQuery svc params counting =
     (case params of
        None \<Rightarrow> Inr (if counting then CountPromise (VObj [])
                      else Cursor \<lparr>c_query = VObj [], c_sort = None, c_collation = None,
                                   c_skip = None, c_limit = None, c_hint = None\<rparr>)
      | Some ps \<Rightarrow>
          (case parseParams svc ps of
             Inl err \<Rightarrow> Inl err
           | Inr qry \<Rightarrow>
               if counting
               then (case p_hint ps of
                       None \<Rightarrow> Inr (CountPromise qry)
                     | Some h \<Rightarrow> if truthy h then Inl TypeError else Inr (CountPromise qry))
               else
                 let c0 = \<lparr>c_query = qry, c_sort = None, c_collation = None,
                            c_skip = None, c_limit = None, c_hint = None\<rparr>
                 in case (case p_sort ps of
                            None \<Rightarrow> Inr c0
                          | Some s \<Rightarrow>
                              if truthy s
                              then (case transformSort s of
                                      Inl err \<Rightarrow> Inl err
                                    | Inr t \<Rightarrow>
                                        let c = (if truthy t then c0\<lparr>c_sort := Some t\<rparr> else c0)
                                        in (case p_collation ps of
                                              None \<Rightarrow> Inr c
                                            | Some col \<Rightarrow>
                                                if truthy col then Inr (c\<lparr>c_collation := Some col\<rparr>)
                                                else Inr c))
                              else Inr c0) of
                      Inl err \<Rightarrow> Inl err
                    | Inr c1 \<Rightarrow>
                        let c2 = (case p_offset ps of
                                    None \<Rightarrow> c1
                                  | Some n \<Rightarrow> if n > 0 then c1\<lparr>c_skip := Some n\<rparr> else c1);
                            c3 = (case p_limit ps of
                                    None \<Rightarrow> c2
                                  | Some n \<Rightarrow> if n > 0 then c2\<lparr>c_limit := Some n\<rparr> else c2);
                            c4 = (case p_hint ps of
                                    None \<Rightarrow> c3
                                  | Some h \<Rightarrow> if truthy h then c3\<lparr>c_hint := Some h\<rparr> else c3)
                        in Inr (Cursor c4)))"

definition find_entities ::
  "(jsval \<Rightarrow> entity \<Rightarrow> bool) \<Rightarrow> (jsval \<Rightarrow> entity list \<Rightarrow> entity list) \<Rightarrow> service \<Rightarrow> collection \<Rightarrow>
     params option \<Rightarrow> error + entity list" where
  "find_entities ext order svc coll params =
     (case createQuery svc params False of
        Inl err \<Rightarrow> Inl err
      | Inr (Cursor c) \<Rightarrow> Inr (toArray ext order coll c)
      | Inr (CountPromise _) \<Rightarrow> Inl TypeError)"

definition count ::
  "(jsval \<Rightarrow> entity \<Rightarrow> bool) \<Rightarrow> service \<Rightarrow> collection \<Rightarrow> params option \<Rightarrow> error + nat" where
  "count ext svc coll params =
     (case createQuery svc params True of
        Inl err \<Rightarrow> Inl err
      | Inr (CountPromise q) \<Rightarrow> Inr (countDocuments ext coll q)
      | Inr (Cursor _) \<Rightarrow> Inl TypeError)"

subsection \<open>Writes\<close>

text \<open>
  What the driver does with one write is outside the program: the call is acknowledged, or
  returns unacknowledged, or throws. A document without \<open>_id\<close> gets a fresh one, which
  the driver assigns on the very object it was given.
\<close>

datatype writeOutcome = Acknowledged | Unacknowledged | DriverThrows string

definition insertOne :: "collection \<Rightarrow> entity \<Rightarrow> entity \<times> collection" where
  "insertOne coll doc =
     (let doc' = (case map_of doc ''_id'' of
                    None \<Rightarrow> doc @ [(''_id'', VObjectId (nextOid coll))]
                  | Some _ \<Rightarrow> doc)
      in (doc', coll\<lparr>docs := docs coll @ [doc'], nextOid := nextOid coll + 1\<rparr>))"

fun insertDocs :: "collection \<Rightarrow> entity list \<Rightarrow> entity list \<times> collection" where
  "insertDocs coll [] = ([], coll)"
| "insertDocs coll (d # ds) =
     (let (d', coll') = insertOne coll d; (ds', coll'') = insertDocs coll' ds
      in (d' # ds', coll''))"

text \<open>
  \<open>addIdToEntity\<close>: \<open>$primaryField?.generated !== 'user'\<close> is true for a missing primary
  field too, and reading \<open>columnName\<close> of it is then a TypeError. \<open>now\<close> is the clock value
  that \<open>generate\<close> reads.
\<close>

definition addIdToEntity :: "service \<Rightarrow> snowflake \<Rightarrow> int \<Rightarrow> entity \<Rightarrow> (error + entity) \<times> snowflake" where
  "addIdToEntity svc sf now entity =
     (case s_primaryField svc of
        None \<Rightarrow> (Inl TypeError, sf)
      | Some pf \<Rightarrow>
          if generated pf \<noteq> ''user''
          then (case generate sf now of
                  (Inl err, sf') \<Rightarrow> (Inl err, sf')
                | (Inr gid, sf') \<Rightarrow> (Inr (spread [(columnName pf, VStr gid)] entity), sf'))
          else (Inr entity, sf))"

definition insert_entity ::
  "service \<Rightarrow> snowflake \<Rightarrow> int \<Rightarrow> writeOutcome \<Rightarrow> collection \<Rightarrow> entity \<Rightarrow>
     (error + entity) \<times> snowflake \<times> collection" where
  "insert_entity svc sf now outcome coll entity =
     (case addIdToEntity svc sf now entity of
        (Inl err, sf') \<Rightarrow> (Inl (Error ''Creating Record Failed''), sf', coll)
      | (Inr e, sf') \<Rightarrow>
          (case outcome of
             DriverThrows m \<Rightarrow> (Inl (Error ''Creating Record Failed''), sf', coll)
           | Unacknowledged \<Rightarrow> (Inl (Error ''Creating Record Failed''), sf', snd (insertOne coll e))
           | Acknowledged \<Rightarrow> (Inr (fst (insertOne coll e)), sf', snd (insertOne coll e))))"

text \<open>\<open>entities.map(addIdToEntity)\<close>; \<open>now_at i\<close> is the clock value read for the i-th entity.\<close>

fun addIds ::
  "service \<Rightarrow> snowflake \<Rightarrow> (nat \<Rightarrow> int) \<Rightarrow> nat \<Rightarrow> entity list \<Rightarrow> (error + entity list) \<times> snowflake" where
  "addIds svc sf now_at i [] = (Inr [], sf)"
| "addIds svc sf now_at i (e # es) =
     (case addIdToEntity svc sf (now_at i) e of
        (Inl err, sf') \<Rightarrow> (Inl err, sf')
      | (Inr e', sf') \<Rightarrow>
          (case addIds svc sf' now_at (i + 1) es of
             (Inl err, sf'') \<Rightarrow> (Inl err, sf'')
           | (Inr es', sf'') \<Rightarrow> (Inr (e' # es'), sf'')))"

text \<open>
  \<open>insertMany\<close>: the map runs before the \<open>try\<close>, so an error of \<open>addIdToEntity\<close> is not
  wrapped. The function returns \<open>entities\<close>, its own argument: when the primary field is
  generated by the system these are not the objects that were stored (\<open>addIdToEntity\<close> made
  new ones); when it is generated by the user they are the stored objects themselves, with
  the \<open>_id\<close> the driver put on them. Without the flag it returns the driver's
  \<open>insertedIds\<close>, the \<open>_id\<close> values.
\<close>

definition insertMany ::
  "service \<Rightarrow> snowflake \<Rightarrow> (nat \<Rightarrow> int) \<Rightarrow> writeOutcome \<Rightarrow> collection \<Rightarrow> entity list \<Rightarrow> bool \<Rightarrow>
     (error + jsval list) \<times> snowflake \<times> collection" where
  "insertMany svc sf now_at outcome coll entities returnEntities =
     (case addIds svc sf now_at 0 entities of
        (Inl err, sf') \<Rightarrow> (Inl err, sf', coll)
      | (Inr remappedEntities, sf') \<Rightarrow>
          (case outcome of
             DriverThrows m \<Rightarrow> (Inl (Error ''Creating Many Records Failed''), sf', coll)
           | Unacknowledged \<Rightarrow>
               (Inl (Error ''Creating Many Records Failed''), sf', snd (insertDocs coll remappedEntities))
           | Acknowledged \<Rightarrow>
               (let stored = fst (insertDocs coll remappedEntities);
                    coll' = snd (insertDocs coll remappedEntities);
                    sameObjects = (case s_primaryField svc of
                                     None \<Rightarrow> False | Some pf \<Rightarrow> generated pf = ''user'')
                in (Inr (if returnEntities
                         then map VObj (if sameObjects then stored else entities)
                         else map (\<lambda>d. getProp d ''_id'') stored),
                    sf', coll'))))"

text \<open>
  \<open>findOneAndReplace(filter, replacement, {returnDocument: 'after'})\<close> of the driver: the
  first matching document is replaced; the stored \<open>_id\<close> is kept, and a replacement that
  carries another \<open>_id\<close> is rejected. The value is the new document, or none when nothing
  matched.
\<close>

fun findOneAndReplace ::
  "(jsval \<Rightarrow> entity \<Rightarrow> bool) \<Rightarrow> jsval \<Rightarrow> entity \<Rightarrow> entity list \<Rightarrow> error + (entity option \<times> entity list)" where
  "findOneAndReplace ext q e [] = Inr (None, [])"
| "findOneAndReplace ext q e (d # ds) =
     (if mongoMatches ext q d
      then (case map_of e ''_id'' of
              None \<Rightarrow> (let e' = (case map_of d ''_id'' of None \<Rightarrow> e | Some oid \<Rightarrow> (''_id'', oid) # e)
                        in Inr (Some e', e' # ds))
            | Some oid \<Rightarrow> if map_of d ''_id'' = Some oid then Inr (Some e, e # ds)
                          else Inl (Rejected ''immutable field _id''))
      else (case findOneAndReplace ext q e ds of
              Inl err \<Rightarrow> Inl err
            | Inr (v, ds') \<Rightarrow> Inr (v, d # ds')))"


subsection \<open>The global client registry and connect\<close>
















section \<open>Notions used to state and prove the properties\<close>

text \<open>
  The value of a digit array (least significant digit first), arrays whose digits are all
  below the base, and arrays without a leading zero (a zero last element).
\<close>

fun dval :: "nat \<Rightarrow> nat list \<Rightarrow> nat" where
  "dval b [] = 0"
| "dval b (d # ds) = d + b * dval b ds"

definition okd :: "nat \<Rightarrow> nat list \<Rightarrow> bool" where
  "okd b ds = (\<forall>d \<in> set ds. d < b)"

definition nz :: "nat list \<Rightarrow> bool" where
  "nz ds = (ds = [] \<or> last ds \<noteq> 0)"

text \<open>What \<open>convertBase\<close> writes for a number: its decimal numeral, and the empty string for 0.\<close>

definition decStr :: "nat \<Rightarrow> string" where
  "decStr n = (if n = 0 then [] else natToString 10 n)"

text \<open>Strings of digits of a radix, and the value of one character.\<close>

definition allDigits :: "nat \<Rightarrow> string \<Rightarrow> bool" where
  "allDigits R s = (\<forall>c \<in> set s. isDigitIn R c)"

definition dv :: "char \<Rightarrow> nat" where
  "dv c = (case digitValue c of None \<Rightarrow> 0 | Some d \<Rightarrow> d)"

definition lowerChar :: "char \<Rightarrow> char" where
  "lowerChar c = (let n = (of_char c :: nat) in if 65 \<le> n \<and> n \<le> 90 then char_of (n + 32) else c)"

text \<open>
  The fields after one call of \<open>generate\<close> at clock value \<open>now\<close>, and the number whose
  binary numeral is the bit string composed from a state.
\<close>

definition tick :: "snowflake \<Rightarrow> int \<Rightarrow> snowflake" where
  "tick s now =
     (if lastTime s = now - epoch
      then (if seq s + 1 > 4095 then s\<lparr>seq := 0, lastTime := now - epoch + 1\<rparr>
            else s\<lparr>seq := seq s + 1, lastTime := now - epoch\<rparr>)
      else s\<lparr>seq := 0, lastTime := now - epoch\<rparr>)"

definition idNumber :: "snowflake \<Rightarrow> nat" where
  "idNumber s = strVal 2 (bid_of s (lastTime s))"

text \<open>Successive calls of \<open>generate\<close>, one per clock reading, and the states they leave.\<close>

fun generateMany :: "snowflake \<Rightarrow> int list \<Rightarrow> (error + string) list" where
  "generateMany s [] = []"
| "generateMany s (now # nows) = fst (generate s now) # generateMany (snd (generate s now)) nows"

fun ticks :: "snowflake \<Rightarrow> int list \<Rightarrow> snowflake list" where
  "ticks s [] = []"
| "ticks s (now # nows) = tick s now # ticks (tick s now) nows"

text \<open>Elapsed time and sequence number as one integer.\<close>

definition rank :: "snowflake \<Rightarrow> int" where
  "rank s = (lastTime s - offset s) * 4096 + int (seq s)"

text \<open>The order of JavaScript strings: by character code, a proper prefix first.\<close>

fun strLess :: "string \<Rightarrow> string \<Rightarrow> bool" where
  "strLess [] [] = False"
| "strLess [] (b # bs) = True"
| "strLess (a # as) [] = False"
| "strLess (a # as) (b # bs) =
     ((of_char a :: nat) < of_char b \<or> (a = b \<and> strLess as bs))"

text \<open>Padding to 23 characters and cutting after the 23rd, as the last line of \<open>generate\<close> does.\<close>

definition fmt23 :: "nat \<Rightarrow> string" where
  "fmt23 n = take 23 (padStart 23 CHR ''0'' (decStr n))"

text \<open>
  The invariant between a state and the clock readings still to come: no reading is before
  the last time, no reading occurs more than 4096 times, and the calls left in the current
  tick fit the sequence counter.
\<close>

definition paced :: "snowflake \<Rightarrow> int list \<Rightarrow> bool" where
  "paced s nows =
     (sorted nows \<and> seq s \<le> 4095 \<and>
      (\<forall>now \<in> set nows. count_list nows now \<le> 4096 \<and> lastTime s \<le> now - epoch \<and>
          (lastTime s = now - epoch \<longrightarrow> seq s + count_list nows now \<le> 4096)))"

text \<open>A generator state for the examples: what the constructor builds for the identifier 1.\<close>

definition demo :: snowflake where
  "demo = \<lparr> seq = 0, rnd = 5, offset = 0, lastTime = 0,
            instanceId = ''00000000000000000000000000000001'',
            instanceNumber = ''1111101001'' \<rparr>"

text \<open>
  For the adapter: the parameter object with nothing set, whether the schema lets a field
  be filtered, the \<open>isMatch\<close> property as \<open>processFilterParams\<close> reads it, the
  registry key that \<open>connect\<close> computes, and the key that a registry call of another
  adapter concerns.
\<close>

definition noParams :: params where
  "noParams = \<lparr>p_filter = None, p_search = None, p_searchFields = None, p_query = None,
               p_sort = None, p_collation = None, p_offset = None, p_limit = None, p_hint = None\<rparr>"

definition isFilterable :: "service \<Rightarrow> string \<Rightarrow> bool" where
  "isFilterable svc fld = list_ex (\<lambda>f. f_filter f \<and> f_name f = fld) (s_fields svc)"

definition isMatchOf :: "jsval \<Rightarrow> jsval" where
  "isMatchOf valueObj = (case valueObj of VObj ps \<Rightarrow> getProp ps ''isMatch'' | _ \<Rightarrow> VUndef)"



text \<open>
  Examples: a schema with a filterable \<open>status\<close> field and the two entities of the spec's
  filtering example; a schema whose primary field \<open>id\<close> is generated by the system; an
  empty collection, one with a single document and one with two; an adapter with no URI configured.
\<close>

definition statusService :: service where
  "statusService =
     \<lparr>s_fields = [\<lparr>f_name = ''status'', f_type = ''boolean'', f_filter = True, f_search = False,
                    f_properties = None\<rparr>],
      s_primaryField = Some \<lparr>generated = ''system'', columnName = ''id''\<rparr>\<rparr>"

definition statusDocs :: collection where
  "statusDocs = \<lparr>docs = [[(''status'', VBool True)], [(''status'', VBool False)]], nextOid = 0\<rparr>"

definition nameService :: service where
  "nameService = \<lparr>s_fields = [], s_primaryField = Some \<lparr>generated = ''system'', columnName = ''id''\<rparr>\<rparr>"

definition emptyColl :: collection where
  "emptyColl = \<lparr>docs = [], nextOid = 0\<rparr>"




section \<open>Digit-array arithmetic computes with values\<close>

lemma dval_append: "dval b (xs @ ys) = dval b xs + b ^ length xs * dval b ys"
  by (induction xs) (auto simp: algebra_simps)

lemma dval_drop: "dval b (drop i x) = (if i < length x then x ! i else 0) + b * dval b (drop (Suc i) x)"
proof (cases "i < length x")
  case True
  then have "drop i x = x ! i # drop (Suc i) x" by (simp add: Cons_nth_drop_Suc)
  then show ?thesis using True by simp
next
  case False
  then show ?thesis by simp
qed

lemma add_loop_dval:
  "2 \<le> base \<Longrightarrow>
   dval base (add_loop x y base carry i z) =
     dval base z + base ^ length z * (carry + dval base (drop i x) + dval base (drop i y))"
proof (induction x y base carry i z rule: add_loop.induct)
  case (1 x y base carry i z)
  show ?case
  proof (cases "i < max (length x) (length y) \<or> carry \<noteq> 0")
    case True
    define xi where "xi = (if i < length x then x ! i else 0)"
    define yi where "yi = (if i < length y then y ! i else 0)"
    define zi where "zi = carry + xi + yi"
    have step: "add_loop x y base carry i z = add_loop x y base (zi div base) (i + 1) (z @ [zi mod base])"
      using True "1.prems" by (subst add_loop.simps) (simp add: xi_def yi_def zi_def Let_def)
    have IH: "dval base (add_loop x y base (zi div base) (i + 1) (z @ [zi mod base])) =
        dval base (z @ [zi mod base]) + base ^ length (z @ [zi mod base]) *
          (zi div base + dval base (drop (i + 1) x) + dval base (drop (i + 1) y))"
      using "1.IH"[OF _ xi_def yi_def zi_def "1.prems"] True "1.prems" by simp
    have dx: "dval base (drop i x) = xi + base * dval base (drop (Suc i) x)"
      unfolding xi_def by (rule dval_drop)
    have dy: "dval base (drop i y) = yi + base * dval base (drop (Suc i) y)"
      unfolding yi_def by (rule dval_drop)
    have zz: "zi mod base + base * (zi div base) = zi" by simp
    have "dval base (z @ [zi mod base]) + base ^ length (z @ [zi mod base]) *
          (zi div base + dval base (drop (i + 1) x) + dval base (drop (i + 1) y))
        = dval base z + base ^ length z * (zi mod base) + base ^ length z * (base *
          (zi div base + dval base (drop (Suc i) x) + dval base (drop (Suc i) y)))"
      by (simp add: dval_append)
    also have "\<dots> = dval base z + base ^ length z * ((zi mod base + base * (zi div base))
             + base * dval base (drop (Suc i) x) + base * dval base (drop (Suc i) y))"
      by (simp only: distrib_left add.assoc)
    finally have "dval base (z @ [zi mod base]) + base ^ length (z @ [zi mod base]) *
          (zi div base + dval base (drop (i + 1) x) + dval base (drop (i + 1) y))
        = dval base z + base ^ length z * ((zi mod base + base * (zi div base))
             + base * dval base (drop (Suc i) x) + base * dval base (drop (Suc i) y))"
      .
    also have "\<dots> = dval base z + base ^ length z * (carry + dval base (drop i x) + dval base (drop i y))"
      unfolding zz dx dy zi_def by (simp add: algebra_simps)
    finally show ?thesis using step IH by simp
  next
    case False
    then have "add_loop x y base carry i z = z" by (subst add_loop.simps) simp
    moreover have "drop i x = []" "drop i y = []" "carry = 0" using False by auto
    ultimately show ?thesis by simp
  qed
qed

lemma add_dval: "2 \<le> base \<Longrightarrow> dval base (add x y base) = dval base x + dval base y"
  by (simp add: add_def add_loop_dval)

lemma add_loop_okd: "okd base z \<Longrightarrow> okd base (add_loop x y base carry i z)"
proof (induction x y base carry i z rule: add_loop.induct)
  case (1 x y base carry i z)
  show ?case
  proof (cases "2 \<le> base \<and> (i < max (length x) (length y) \<or> carry \<noteq> 0)")
    case True
    define xi where "xi = (if i < length x then x ! i else 0)"
    define yi where "yi = (if i < length y then y ! i else 0)"
    define zi where "zi = carry + xi + yi"
    have step: "add_loop x y base carry i z = add_loop x y base (zi div base) (i + 1) (z @ [zi mod base])"
      using True by (subst add_loop.simps) (simp add: xi_def yi_def zi_def Let_def)
    have "okd base (z @ [zi mod base])" using "1.prems" True by (auto simp: okd_def)
    then show ?thesis using "1.IH"[OF True xi_def yi_def zi_def] step by simp
  next
    case False
    then have "add_loop x y base carry i z = z" by (subst add_loop.simps) auto
    then show ?thesis using "1.prems" by simp
  qed
qed

lemma add_okd: "okd base (add x y base)"
  unfolding add_def by (rule add_loop_okd) (simp add: okd_def)

lemma add_loop_nz:
  "2 \<le> base \<Longrightarrow> nz x \<Longrightarrow> nz y \<Longrightarrow> (max (length x) (length y) \<le> i \<and> carry = 0 \<longrightarrow> nz z) \<Longrightarrow>
   nz (add_loop x y base carry i z)"
proof (induction x y base carry i z rule: add_loop.induct)
  case (1 x y base carry i z)
  show ?case
  proof (cases "2 \<le> base \<and> (i < max (length x) (length y) \<or> carry \<noteq> 0)")
    case True
    define xi where "xi = (if i < length x then x ! i else 0)"
    define yi where "yi = (if i < length y then y ! i else 0)"
    define zi where "zi = carry + xi + yi"
    have step: "add_loop x y base carry i z = add_loop x y base (zi div base) (i + 1) (z @ [zi mod base])"
      using True by (subst add_loop.simps) (simp add: xi_def yi_def zi_def Let_def)
    have inv: "max (length x) (length y) \<le> i + 1 \<and> zi div base = 0 \<longrightarrow> nz (z @ [zi mod base])"
    proof (intro impI, elim conjE)
      assume le: "max (length x) (length y) \<le> i + 1" and c0: "zi div base = 0"
      have small: "zi < base" using c0 True by (simp add: div_eq_0_iff)
      have "zi \<noteq> 0"
      proof (cases "i < max (length x) (length y)")
        case t: True
        then have n: "max (length x) (length y) = i + 1" using le by linarith
        show ?thesis
        proof (cases "length x = i + 1")
          case True
          then have "x \<noteq> []" by auto
          then have "last x \<noteq> 0" using "1.prems"(2) by (simp add: nz_def)
          moreover have "last x = x ! i" using True \<open>x \<noteq> []\<close> by (simp add: last_conv_nth)
          ultimately show ?thesis using True by (simp add: zi_def xi_def)
        next
          case False
          then have ly: "length y = i + 1" using n by (simp add: max_def split: if_splits)
          then have "y \<noteq> []" by auto
          then have "last y \<noteq> 0" using "1.prems"(3) by (simp add: nz_def)
          moreover have "last y = y ! i" using ly \<open>y \<noteq> []\<close> by (simp add: last_conv_nth)
          ultimately show ?thesis using ly by (simp add: zi_def yi_def)
        qed
      next
        case False
        then have "carry \<noteq> 0" using True by simp
        then show ?thesis by (simp add: zi_def)
      qed
      then show "nz (z @ [zi mod base])" using small by (simp add: nz_def)
    qed
    show ?thesis using "1.IH"[OF True xi_def yi_def zi_def "1.prems"(1,2,3) inv] step by simp
  next
    case False
    then have r: "add_loop x y base carry i z = z" by (subst add_loop.simps) auto
    show ?thesis using False "1.prems" r by auto
  qed
qed

lemma add_nz: "2 \<le> base \<Longrightarrow> nz x \<Longrightarrow> nz y \<Longrightarrow> nz (add x y base)"
  unfolding add_def by (rule add_loop_nz) (auto simp: nz_def)

lemma halves_split: "(a::nat) = r + 2 * q \<Longrightarrow> r * p + q * (p + p) = a * p"
  by (simp add: algebra_simps)

lemma multiply_loop_dval:
  "2 \<le> base \<Longrightarrow>
   dval base (multiply_loop num result pow base) = dval base result + num * dval base pow"
proof (induction num result pow base rule: multiply_loop.induct)
  case (1 num result pow base)
  define result' where "result' = (if odd num then add result pow base else result)"
  have r': "dval base result' = dval base result + (num mod 2) * dval base pow"
    using "1.prems" by (auto simp: result'_def add_dval odd_iff_mod_2_eq_one)
  show ?case
  proof (cases "num div 2 = 0")
    case True
    then have "multiply_loop num result pow base = result'"
      by (subst multiply_loop.simps) (simp add: result'_def Let_def)
    moreover have "num mod 2 = num" using True by (simp add: div_eq_0_iff)
    ultimately show ?thesis using r' by simp
  next
    case False
    have step: "multiply_loop num result pow base =
        multiply_loop (num div 2) result' (add pow pow base) base"
      using False by (subst multiply_loop.simps) (simp add: result'_def Let_def)
    have "dval base (multiply_loop (num div 2) result' (add pow pow base) base) =
        dval base result' + (num div 2) * dval base (add pow pow base)"
      using "1.IH"[OF result'_def refl False "1.prems"] .
    also have "\<dots> = dval base result + (num mod 2) * dval base pow
                       + (num div 2) * (dval base pow + dval base pow)"
      using "1.prems" by (simp only: r' add_dval)
    also have "\<dots> = dval base result + num * dval base pow"
      using halves_split[of num "num mod 2" "num div 2" "dval base pow"] by simp
    finally show ?thesis using step by simp
  qed
qed

lemma multiply_loop_okd: "okd base result \<Longrightarrow> okd base (multiply_loop num result pow base)"
proof (induction num result pow base rule: multiply_loop.induct)
  case (1 num result pow base)
  define result' where "result' = (if odd num then add result pow base else result)"
  have r': "okd base result'" using "1.prems" by (simp add: result'_def add_okd)
  show ?case
  proof (cases "num div 2 = 0")
    case True
    then have "multiply_loop num result pow base = result'"
      by (subst multiply_loop.simps) (simp add: result'_def Let_def)
    then show ?thesis using r' by simp
  next
    case False
    have step: "multiply_loop num result pow base =
        multiply_loop (num div 2) result' (add pow pow base) base"
      using False by (subst multiply_loop.simps) (simp add: result'_def Let_def)
    show ?thesis using "1.IH"[OF result'_def refl False r'] step by simp
  qed
qed

lemma multiply_loop_nz:
  "2 \<le> base \<Longrightarrow> nz result \<Longrightarrow> nz pow \<Longrightarrow> nz (multiply_loop num result pow base)"
proof (induction num result pow base rule: multiply_loop.induct)
  case (1 num result pow base)
  define result' where "result' = (if odd num then add result pow base else result)"
  have r': "nz result'" using "1.prems" by (simp add: result'_def add_nz)
  show ?case
  proof (cases "num div 2 = 0")
    case True
    then have "multiply_loop num result pow base = result'"
      by (subst multiply_loop.simps) (simp add: result'_def Let_def)
    then show ?thesis using r' by simp
  next
    case False
    have step: "multiply_loop num result pow base =
        multiply_loop (num div 2) result' (add pow pow base) base"
      using False by (subst multiply_loop.simps) (simp add: result'_def Let_def)
    have "nz (add pow pow base)" using "1.prems" by (simp add: add_nz)
    then show ?thesis using "1.IH"[OF result'_def refl False "1.prems"(1) r'] step by simp
  qed
qed

lemma multiplyByNumber_dval:
  "2 \<le> base \<Longrightarrow> dval base (multiplyByNumber num x base) = num * dval base x"
  by (simp add: multiplyByNumber_def multiply_loop_dval)

lemma multiplyByNumber_okd: "okd base (multiplyByNumber num x base)"
proof -
  have "okd base []" by (simp add: okd_def)
  then show ?thesis by (simp add: multiplyByNumber_def multiply_loop_okd)
qed

lemma multiplyByNumber_nz: "2 \<le> base \<Longrightarrow> nz x \<Longrightarrow> nz (multiplyByNumber num x base)"
proof -
  have "nz []" by (simp add: nz_def)
  then show "2 \<le> base \<Longrightarrow> nz x \<Longrightarrow> nz (multiplyByNumber num x base)"
    by (simp add: multiplyByNumber_def multiply_loop_nz)
qed

lemma convert_loop_dval:
  "2 \<le> toBase \<Longrightarrow>
   dval toBase (convert_loop ds fromBase toBase outArray pow) =
     dval toBase outArray + dval toBase pow * dval fromBase ds"
  by (induction ds arbitrary: outArray pow)
     (simp_all add: add_dval multiplyByNumber_dval algebra_simps)

lemma convert_loop_okd:
  "okd toBase outArray \<Longrightarrow> okd toBase (convert_loop ds fromBase toBase outArray pow)"
  by (induction ds arbitrary: outArray pow) (simp_all add: add_okd)

lemma convert_loop_nz:
  "2 \<le> toBase \<Longrightarrow> nz outArray \<Longrightarrow> nz pow \<Longrightarrow>
   nz (convert_loop ds fromBase toBase outArray pow)"
  by (induction ds arbitrary: outArray pow) (simp_all add: add_nz multiplyByNumber_nz)

section \<open>Numerals and their values\<close>

lemma foldl_strVal:
  "foldl (\<lambda>acc c. acc * R + (case digitValue c of None \<Rightarrow> 0 | Some d \<Rightarrow> d)) a s =
     a * R ^ length s + strVal R s"
proof (induction s arbitrary: a)
  case Nil
  then show ?case by (simp add: strVal_def)
next
  case (Cons c cs)
  have "strVal R (c # cs) =
      foldl (\<lambda>acc c. acc * R + (case digitValue c of None \<Rightarrow> 0 | Some d \<Rightarrow> d))
        (case digitValue c of None \<Rightarrow> 0 | Some d \<Rightarrow> d) cs"
    by (simp add: strVal_def)
  then show ?case by (simp add: Cons.IH algebra_simps)
qed

lemma strVal_Nil [simp]: "strVal R [] = 0"
  by (simp add: strVal_def)

lemma strVal_append: "strVal R (a @ b) = strVal R a * R ^ length b + strVal R b"
proof -
  have "strVal R (a @ b) =
      foldl (\<lambda>acc c. acc * R + (case digitValue c of None \<Rightarrow> 0 | Some d \<Rightarrow> d)) (strVal R a) b"
    by (simp add: strVal_def)
  also have "\<dots> = strVal R a * R ^ length b + strVal R b" by (rule foldl_strVal)
  finally show ?thesis .
qed

lemma strVal_single: "strVal R [c] = (case digitValue c of None \<Rightarrow> 0 | Some d \<Rightarrow> d)"
  by (simp add: strVal_def)

lemma strVal_Cons:
  "strVal R (c # cs) = (case digitValue c of None \<Rightarrow> 0 | Some d \<Rightarrow> d) * R ^ length cs + strVal R cs"
  using strVal_append[of R "[c]" cs] by (simp add: strVal_single)

lemma digitValue_digitChar: "d < 36 \<Longrightarrow> digitValue (digitChar d) = Some d"
  by (auto simp: digitValue_def digitChar_def Let_def)

lemma isDigitIn_digitChar: "d < R \<Longrightarrow> R \<le> 36 \<Longrightarrow> isDigitIn R (digitChar d)"
  by (simp add: isDigitIn_def digitValue_digitChar)

lemma natToString_digits:
  "2 \<le> R \<Longrightarrow> R \<le> 36 \<Longrightarrow> \<forall>c \<in> set (natToString R n). isDigitIn R c"
proof (induction R n rule: natToString.induct)
  case (1 R n)
  show ?case
  proof (cases "n < R")
    case True
    then have "natToString R n = [digitChar n]" by (subst natToString.simps) simp
    then show ?thesis using True "1.prems" by (simp add: isDigitIn_digitChar)
  next
    case False
    then have "natToString R n = natToString R (n div R) @ [digitChar (n mod R)]"
      using "1.prems" by (subst natToString.simps) simp
    moreover have "isDigitIn R (digitChar (n mod R))"
      using "1.prems" by (simp add: isDigitIn_digitChar)
    ultimately show ?thesis using "1.IH" False "1.prems" by auto
  qed
qed

lemma natToString_val:
  "2 \<le> R \<Longrightarrow> R \<le> 36 \<Longrightarrow> strVal R (natToString R n) = n"
proof (induction R n rule: natToString.induct)
  case (1 R n)
  show ?case
  proof (cases "n < R")
    case True
    then have "natToString R n = [digitChar n]" by (subst natToString.simps) simp
    then show ?thesis using True "1.prems" by (simp add: strVal_single digitValue_digitChar)
  next
    case False
    then have e: "natToString R n = natToString R (n div R) @ [digitChar (n mod R)]"
      using "1.prems" by (subst natToString.simps) simp
    have "n mod R < R" using "1.prems" by simp
    then have "n mod R < 36" using "1.prems" by linarith
    then have "strVal R [digitChar (n mod R)] = n mod R"
      by (simp add: strVal_single digitValue_digitChar)
    moreover have "strVal R (natToString R (n div R)) = n div R"
      using "1.IH" False "1.prems" by simp
    ultimately show ?thesis by (simp add: e strVal_append)
  qed
qed

lemma natToString_nonempty: "natToString R n \<noteq> []"
  by (subst natToString.simps) simp

lemma natToString_small: "n < R \<Longrightarrow> natToString R n = [digitChar n]"
  by (subst natToString.simps) simp

lemma nz_dval_pos: "nz ds \<Longrightarrow> ds \<noteq> [] \<Longrightarrow> 2 \<le> b \<Longrightarrow> 0 < dval b ds"
proof (induction ds)
  case Nil
  then show ?case by simp
next
  case (Cons d ds)
  show ?case
  proof (cases "ds = []")
    case True
    then show ?thesis using Cons.prems by (simp add: nz_def)
  next
    case False
    then have "nz ds" using Cons.prems by (simp add: nz_def)
    then have "0 < dval b ds" using Cons.IH False Cons.prems by simp
    then show ?thesis using Cons.prems by simp
  qed
qed

lemma digits_to_string:
  "okd 10 ds \<Longrightarrow> nz ds \<Longrightarrow> concat (map (natToString 10) (rev ds)) = decStr (dval 10 ds)"
proof (induction ds)
  case Nil
  then show ?case by (simp add: decStr_def)
next
  case (Cons d ds)
  have d: "d < 10" using Cons.prems by (simp add: okd_def)
  show ?case
  proof (cases "ds = []")
    case True
    then have "d \<noteq> 0" using Cons.prems by (simp add: nz_def)
    then show ?thesis using True d by (simp add: decStr_def natToString_small)
  next
    case False
    then have n: "nz ds" using Cons.prems by (simp add: nz_def)
    have o: "okd 10 ds" using Cons.prems by (simp add: okd_def)
    have pos: "0 < dval 10 ds" using nz_dval_pos[OF n False] by simp
    have "natToString 10 (d + 10 * dval 10 ds) = natToString 10 (dval 10 ds) @ [digitChar d]"
      using pos d by (subst natToString.simps) simp
    then show ?thesis using Cons.IH[OF o n] pos d by (simp add: decStr_def natToString_small)
  qed
qed

subsection \<open>\<open>parseInt\<close> on digits\<close>

lemma bitlen_le: "n < 2 ^ k \<Longrightarrow> bitlen n \<le> k"
proof (induction k arbitrary: n)
  case 0
  then show ?case by (subst bitlen.simps) simp
next
  case (Suc k)
  have "n div 2 < 2 ^ k" using Suc.prems by auto
  then have "bitlen (n div 2) \<le> k" by (rule Suc.IH)
  then show ?case by (subst bitlen.simps) simp
qed

lemma toDouble_exact: "n < 2 ^ 53 \<Longrightarrow> toDouble n = n"
  using bitlen_le[of n 53] by (simp add: toDouble_def)

lemma digitValue_not_ws: "digitValue c = Some d \<Longrightarrow> \<not> isWhiteSpace c"
  by (auto simp: digitValue_def isWhiteSpace_def Let_def split: if_splits)

lemma digitValue_not_sign: "digitValue c = Some d \<Longrightarrow> c \<noteq> CHR ''-'' \<and> c \<noteq> CHR ''+''"
  by (auto simp: digitValue_def Let_def split: if_splits)

lemma digitValue_lt: "digitValue c = Some d \<Longrightarrow> d < 36"
  by (auto simp: digitValue_def Let_def split: if_splits)

lemma parseInt_char:
  assumes "digitValue c = Some d" "d < R" "2 \<le> R" "R \<le> 36"
  shows "parseInt [c] R = Num (int d)"
proof -
  have ws: "\<not> isWhiteSpace c" using assms(1) by (rule digitValue_not_ws)
  have sg: "c \<noteq> CHR ''-''" "c \<noteq> CHR ''+''" using digitValue_not_sign[OF assms(1)] by auto
  have dg: "isDigitIn R c" using assms by (simp add: isDigitIn_def)
  have "d < 2 ^ 53" using digitValue_lt[OF assms(1)] by simp
  then have td: "toDouble d = d" by (rule toDouble_exact)
  show ?thesis using ws sg dg td assms
    by (auto simp: parseInt_def stripHexPrefix_def Let_def strVal_single)
qed

lemma parseInt_char_NaN:
  assumes "\<not> isDigitIn R c" "R \<noteq> 0"
  shows "parseInt [c] R = NaN"
proof -
  have sp: "stripHexPrefix [c] = None" "stripHexPrefix [] = None"
    by (simp_all add: stripHexPrefix_def)
  show ?thesis
  proof (cases "isWhiteSpace c")
    case True
    then show ?thesis using assms(2) by (simp add: parseInt_def sp Let_def)
  next
    case False
    show ?thesis
    proof (cases "c = CHR ''-'' \<or> c = CHR ''+''")
      case True
      then show ?thesis using False assms(2) by (simp add: parseInt_def sp Let_def)
    next
      case F2: False
      then show ?thesis using False assms by (auto simp: parseInt_def sp Let_def)
    qed
  qed
qed

lemma allDigits_simps [simp]:
  "allDigits R []"
  "allDigits R (c # s) = (isDigitIn R c \<and> allDigits R s)"
  "allDigits R (s @ t) = (allDigits R s \<and> allDigits R t)"
  by (auto simp: allDigits_def)

section \<open>\<open>hexToDec\<close> on hexadecimal numerals\<close>

lemma strVal_snoc: "strVal R (s @ [c]) = strVal R s * R + dv c"
  by (simp add: strVal_append strVal_single dv_def)

lemma dval_rev: "dval R (map dv (rev s)) = strVal R s"
  by (induction s rule: rev_induct) (simp_all add: strVal_snoc)

lemma parseToDigitsArray_loop_hex:
  "allDigits R cs \<Longrightarrow> 2 \<le> R \<Longrightarrow> R \<le> 36 \<Longrightarrow> parseToDigitsArray_loop cs R = Some (map dv cs)"
proof (induction cs)
  case Nil
  then show ?case by simp
next
  case (Cons c cs)
  from Cons.prems obtain d where d: "digitValue c = Some d" "d < R"
    by (auto simp: isDigitIn_def split: option.splits)
  have "parseInt [c] R = Num (int d)" using d Cons.prems by (simp add: parseInt_char)
  then show ?case using Cons d by (simp add: dv_def)
qed

lemma parseToDigitsArray_hex:
  "allDigits R s \<Longrightarrow> 2 \<le> R \<Longrightarrow> R \<le> 36 \<Longrightarrow> parseToDigitsArray s R = Some (map dv (rev s))"
  unfolding parseToDigitsArray_def by (rule parseToDigitsArray_loop_hex) (auto simp: allDigits_def)

lemma convertBase_hex:
  assumes "allDigits 16 s"
  shows "convertBase s 16 10 = Some (decStr (strVal 16 s))"
proof -
  define out where "out = convert_loop (map dv (rev s)) 16 10 [] [1]"
  have v: "dval 10 out = strVal 16 s"
    unfolding out_def by (simp add: convert_loop_dval dval_rev)
  have o: "okd 10 out" unfolding out_def by (rule convert_loop_okd) (simp add: okd_def)
  have n: "nz out" unfolding out_def by (rule convert_loop_nz) (simp_all add: nz_def)
  have "convertBase s 16 10 = Some (concat (map (natToString 10) (rev out)))"
    using assms by (simp add: convertBase_def parseToDigitsArray_hex out_def)
  then show ?thesis using digits_to_string[OF o n] v by simp
qed

lemma digitValue_lowerChar: "digitValue (lowerChar c) = digitValue c"
  by (auto simp: digitValue_def lowerChar_def Let_def)

lemma toLowerCase_map: "toLowerCase s = map lowerChar s"
  by (simp add: toLowerCase_def lowerChar_def)

lemma allDigits_toLowerCase: "allDigits R (toLowerCase s) = allDigits R s"
  by (simp add: allDigits_def toLowerCase_map isDigitIn_def digitValue_lowerChar)

lemma strVal_toLowerCase: "strVal R (toLowerCase s) = strVal R s"
  unfolding toLowerCase_map
  by (induction s rule: rev_induct) (simp_all add: strVal_snoc dv_def digitValue_lowerChar)

lemma not_hex_x: "\<not> isDigitIn 16 CHR ''x''"
  by (simp add: isDigitIn_def digitValue_def)

lemma hex_no_prefix: "allDigits 16 s \<Longrightarrow> take 2 s \<noteq> ''0x''"
proof
  assume a: "allDigits 16 s" and t: "take 2 s = ''0x''"
  have "CHR ''x'' \<in> set (take 2 s)" by (simp add: t)
  then have "CHR ''x'' \<in> set s" by (rule in_set_takeD)
  then show False using a not_hex_x by (auto simp: allDigits_def)
qed

lemma hexToDec_hex: "allDigits 16 s \<Longrightarrow> hexToDec s = Some (decStr (strVal 16 s))"
  by (simp add: hexToDec_def Let_def hex_no_prefix convertBase_hex
      allDigits_toLowerCase strVal_toLowerCase)

section \<open>The nibble loop keeps the value\<close>

lemma strVal_bound: "allDigits R s \<Longrightarrow> strVal R s < R ^ length s"
proof (induction s rule: rev_induct)
  case Nil
  then show ?case by simp
next
  case (snoc c s)
  then have d: "dv c < R" by (auto simp: dv_def isDigitIn_def split: option.splits)
  have "strVal R s < R ^ length s" using snoc by simp
  then have "strVal R s + 1 \<le> R ^ length s" by simp
  then have "(strVal R s + 1) * R \<le> R ^ length s * R" by (rule mult_le_mono1)
  then show ?case using d by (simp add: strVal_snoc algebra_simps)
qed

lemma isDigitIn_plain:
  "isDigitIn R c \<Longrightarrow> \<not> isWhiteSpace c \<and> c \<noteq> CHR ''-'' \<and> c \<noteq> CHR ''+''"
  using digitValue_not_ws digitValue_not_sign
  by (auto simp: isDigitIn_def split: option.splits)

lemma takeWhile_allDigits: "allDigits R s \<Longrightarrow> takeWhile (isDigitIn R) s = s"
  by (simp add: allDigits_def)

lemma parseInt_digits:
  assumes "allDigits R s" "s \<noteq> []" "2 \<le> R" "R \<le> 36" "R \<noteq> 16"
  shows "parseInt s R = Num (int (toDouble (strVal R s)))"
proof -
  obtain c r where s: "s = c # r" using assms(2) by (cases s) auto
  have c: "\<not> isWhiteSpace c" "c \<noteq> CHR ''-''" "c \<noteq> CHR ''+''"
    using isDigitIn_plain[of R c] assms(1) s by auto
  have tw: "takeWhile (isDigitIn R) (c # r) = c # r"
    using takeWhile_allDigits[OF assms(1)] s by simp
  show ?thesis unfolding parseInt_def Let_def s using c assms(3,4,5)
    by (simp add: tw del: takeWhile.simps)
qed

lemma not_dec_x: "\<not> isDigitIn 10 CHR ''x''" "\<not> isDigitIn 10 CHR ''X''"
  by (simp_all add: isDigitIn_def digitValue_def)

lemma parseInt_decimal:
  assumes "allDigits 10 s" "s \<noteq> []"
  shows "parseInt s 0 = Num (int (toDouble (strVal 10 s)))"
proof -
  obtain c r where s: "s = c # r" using assms(2) by (cases s) auto
  have c: "\<not> isWhiteSpace c" "c \<noteq> CHR ''-''" "c \<noteq> CHR ''+''"
    using isDigitIn_plain[of 10 c] assms(1) s by auto
  have tw: "takeWhile (isDigitIn 10) (c # r) = c # r"
    using takeWhile_allDigits[OF assms(1)] s by simp
  have sp: "stripHexPrefix (c # r) = None"
    using assms(1) s not_dec_x by (auto simp: stripHexPrefix_def split: list.splits)
  show ?thesis unfolding parseInt_def Let_def s using c
    by (simp add: tw sp del: takeWhile.simps)
qed

lemma parseInt_nibble:
  assumes "allDigits 2 g" "g \<noteq> []" "length g \<le> 4"
  shows "parseInt g 2 = Num (int (strVal 2 g))" and "strVal 2 g < 16"
proof -
  have "strVal 2 g < 2 ^ length g" using assms(1) by (rule strVal_bound)
  also have "(2::nat) ^ length g \<le> 2 ^ 4" using assms(3) by (intro power_increasing) simp_all
  finally show b: "strVal 2 g < 16" by simp
  then have "toDouble (strVal 2 g) = strVal 2 g" by (intro toDouble_exact) simp
  then show "parseInt g 2 = Num (int (strVal 2 g))"
    using parseInt_digits[OF assms(1,2)] by simp
qed

lemma numToString_nat: "numToString R (Num (int n)) = natToString R n"
  by (simp add: numToString_def)

lemma nibbles_val:
  "allDigits 2 bid \<Longrightarrow> i \<le> int (length bid) \<Longrightarrow> allDigits 16 acc \<Longrightarrow>
   allDigits 16 (nibbles bid i acc) \<and>
   strVal 16 (nibbles bid i acc) = strVal 2 (take (nat i) bid) * 16 ^ length acc + strVal 16 acc"
proof (induction bid i acc rule: nibbles.induct)
  case (1 bid i acc)
  show ?case
  proof (cases "i > 0")
    case False
    then have "nibbles bid i acc = acc" by (subst nibbles.simps) simp
    then show ?thesis using False "1.prems" by simp
  next
    case True
    define a where "a = nat (i - 4)"
    define g where "g = take (nat i - a) (drop a bid)"
    have sub: "substring bid (i - 4) i = g"
      using True by (auto simp: substring_def Let_def g_def a_def max_def)
    have ia: "a < nat i" using True by (simp add: a_def)
    have il: "nat i \<le> length bid" using "1.prems"(2) by simp
    have lg: "length g = nat i - a" using il ia by (simp add: g_def)
    have g4: "length g \<le> 4" "g \<noteq> []" using lg ia True by (auto simp: a_def)
    have tk: "take (nat i) bid = take a bid @ g"
      using ia by (simp add: g_def take_add[symmetric])
    have gb: "allDigits 2 g" using "1.prems"(1) by (auto simp: g_def allDigits_def dest: in_set_takeD in_set_dropD)
    note pn = parseInt_nibble[OF gb g4(2) g4(1)]
    have h: "numToString 16 (parseInt g 2) = [digitChar (strVal 2 g)]"
      using pn by (simp add: numToString_nat natToString_small)
    have step: "nibbles bid i acc = nibbles bid (i - 4) (digitChar (strVal 2 g) # acc)"
      using True by (subst nibbles.simps) (simp add: sub h)
    have acc': "allDigits 16 (digitChar (strVal 2 g) # acc)"
      using pn(2) "1.prems"(3) by (simp add: isDigitIn_digitChar)
    have IH: "allDigits 16 (nibbles bid (i - 4) (digitChar (strVal 2 g) # acc)) \<and>
        strVal 16 (nibbles bid (i - 4) (digitChar (strVal 2 g) # acc)) =
          strVal 2 (take a bid) * 16 ^ length (digitChar (strVal 2 g) # acc)
            + strVal 16 (digitChar (strVal 2 g) # acc)"
      using "1.IH"[OF True] "1.prems"(1,2) acc' True unfolding sub h a_def by simp
    have dvg: "digitValue (digitChar (strVal 2 g)) = Some (strVal 2 g)"
      using pn(2) by (simp add: digitValue_digitChar)
    have pw: "strVal 2 (take a bid) * 2 ^ length g = strVal 2 (take a bid) * 16"
    proof (cases "a = 0")
      case True
      then show ?thesis by simp
    next
      case False
      then have "length g = 4" using lg by (simp add: a_def)
      then show ?thesis by simp
    qed
    have "strVal 2 (take (nat i) bid) = strVal 2 (take a bid) * 16 + strVal 2 g"
      by (simp add: tk strVal_append pw)
    then show ?thesis using IH step dvg by (simp add: strVal_Cons algebra_simps)
  qed
qed

lemma nibbles_hex:
  assumes "allDigits 2 bid"
  shows "allDigits 16 (nibbles bid (int (length bid)) [])"
    and "strVal 16 (nibbles bid (int (length bid)) []) = strVal 2 bid"
  using nibbles_val[OF assms, of "int (length bid)" "[]"] by simp_all

section \<open>What \<open>generate\<close> returns\<close>

lemma isDigitIn_zero: "0 < R \<Longrightarrow> isDigitIn R CHR ''0''"
  by (simp add: isDigitIn_def digitValue_def)

lemma strVal_zeros: "strVal R (replicate k CHR ''0'') = 0"
  by (induction k) (simp_all add: strVal_Cons digitValue_def)

lemma strVal_padStart: "strVal R (padStart n CHR ''0'' s) = strVal R s"
  by (simp add: padStart_def strVal_append strVal_zeros)

lemma allDigits_padStart: "0 < R \<Longrightarrow> allDigits R s \<Longrightarrow> allDigits R (padStart n CHR ''0'' s)"
  by (auto simp: padStart_def allDigits_def isDigitIn_zero)

lemma length_padStart: "length (padStart n c s) = max n (length s)"
  by (simp add: padStart_def)

lemma natToString_length:
  "2 \<le> R \<Longrightarrow> n < R ^ k \<Longrightarrow> 0 < k \<Longrightarrow> length (natToString R n) \<le> k"
proof (induction R n arbitrary: k rule: natToString.induct)
  case (1 R n)
  show ?case
  proof (cases "n < R")
    case True
    then show ?thesis using "1.prems" by (simp add: natToString_small)
  next
    case False
    then have e: "natToString R n = natToString R (n div R) @ [digitChar (n mod R)]"
      using "1.prems" by (subst natToString.simps) simp
    obtain j where k: "k = Suc j" using "1.prems"(3) by (cases k) auto
    have "j \<noteq> 0" using False "1.prems"(2) k by (cases j) auto
    moreover have "n div R < R ^ j"
      using "1.prems" k by (simp add: less_mult_imp_div_less mult.commute)
    ultimately have "length (natToString R (n div R)) \<le> j"
      using "1.IH"[of j] False "1.prems"(1) by simp
    then show ?thesis using e k by simp
  qed
qed

lemma allDigits_natToString: "2 \<le> R \<Longrightarrow> R \<le> 36 \<Longrightarrow> allDigits R (natToString R n)"
  using natToString_digits[of R n] by (simp add: allDigits_def)

lemma generate_tick:
  "generate s now =
     (case hexToDec (nibbles (bid_of (tick s now) (lastTime (tick s now)))
                      (int (length (bid_of (tick s now) (lastTime (tick s now))))) []) of
        None \<Rightarrow> (Inl TypeError, tick s now)
      | Some d \<Rightarrow> (Inr (take 23 (padStart 23 CHR ''0'' d)), tick s now))"
proof (cases "lastTime s = now - epoch")
  case True
  show ?thesis
  proof (cases "seq s + 1 > 4095")
    case T2: True
    show ?thesis using True T2 by (simp add: generate_def tick_def Let_def split: option.splits)
  next
    case False
    show ?thesis using True False by (simp add: generate_def tick_def Let_def split: option.splits)
  qed
next
  case False
  then show ?thesis by (simp add: generate_def tick_def Let_def split: option.splits)
qed

lemma tick_fields [simp]:
  "rnd (tick s now) = rnd s" "offset (tick s now) = offset s"
  "instanceNumber (tick s now) = instanceNumber s" "instanceId (tick s now) = instanceId s"
  by (simp_all add: tick_def)

lemma tick_seq: "seq (tick s now) \<le> 4095"
  by (simp add: tick_def)

lemma tick_lastTime: "now - epoch \<le> lastTime (tick s now)"
  by (simp add: tick_def)

lemma bid_of_digits:
  assumes "allDigits 2 (instanceNumber s)" "offset s \<le> t"
  shows "allDigits 2 (bid_of s t)"
proof -
  have "numToString 2 (Num (t - offset s)) = natToString 2 (nat (t - offset s))"
    using assms(2) by (simp add: numToString_def)
  then show ?thesis using assms(1)
    by (simp add: bid_of_def Let_def allDigits_padStart allDigits_natToString)
qed

lemma generate_value:
  assumes "allDigits 2 (instanceNumber s)" "offset s \<le> now - epoch"
  shows "generate s now =
     (Inr (take 23 (padStart 23 CHR ''0'' (decStr (idNumber (tick s now))))), tick s now)"
proof -
  define s' where "s' = tick s now"
  have "offset s' \<le> lastTime s'" using assms(2) tick_lastTime[of now s] by (simp add: s'_def)
  moreover have "allDigits 2 (instanceNumber s')" using assms(1) by (simp add: s'_def)
  ultimately have b: "allDigits 2 (bid_of s' (lastTime s'))" by (simp add: bid_of_digits)
  note h = nibbles_hex[OF b]
  have "hexToDec (nibbles (bid_of s' (lastTime s')) (int (length (bid_of s' (lastTime s')))) [])
      = Some (decStr (idNumber s'))"
    using hexToDec_hex[OF h(1)] h(2) by (simp add: idNumber_def)
  then show ?thesis by (simp add: generate_tick s'_def[symmetric])
qed

lemma allDigits_decStr: "allDigits 10 (decStr n)"
  by (simp add: decStr_def allDigits_natToString)

lemma allDigits_take: "allDigits R s \<Longrightarrow> allDigits R (take n s)"
  by (auto simp: allDigits_def dest: in_set_takeD)

lemma generate_23:
  assumes "allDigits 2 (instanceNumber s)" "offset s \<le> now - epoch"
  shows "\<exists>d. fst (generate s now) = Inr d \<and> length d = 23 \<and> allDigits 10 d"
  using generate_value[OF assms]
  by (simp add: length_padStart allDigits_take allDigits_padStart allDigits_decStr)

lemma idNumber_formula:
  assumes "allDigits 2 (instanceNumber s)" "offset s \<le> lastTime s" "seq s < 4096" "rnd s < 1024"
  shows "idNumber s =
     ((nat (lastTime s - offset s) * 2 ^ length (instanceNumber s) + strVal 2 (instanceNumber s)) * 2 ^ 12
        + seq s) * 2 ^ 10 + rnd s"
proof -
  have t: "numToString 2 (Num (lastTime s - offset s)) = natToString 2 (nat (lastTime s - offset s))"
    using assms(2) by (simp add: numToString_def)
  have "length (natToString 2 (seq s)) \<le> 12"
    using assms(3) by (intro natToString_length) simp_all
  then have l1: "length (padStart 12 CHR ''0'' (natToString 2 (seq s))) = 12"
    by (simp add: length_padStart)
  have "length (natToString 2 (rnd s)) \<le> 10"
    using assms(4) by (intro natToString_length) simp_all
  then have l2: "length (padStart 10 CHR ''0'' (natToString 2 (rnd s))) = 10"
    by (simp add: length_padStart)
  show ?thesis
    unfolding idNumber_def bid_of_def Let_def t
    by (simp only: strVal_append l1 l2 strVal_padStart length_append)
       (simp add: natToString_val algebra_simps power_add)
qed

section \<open>The constructor and the truncation\<close>

lemma natToString_length_ge:
  "2 \<le> R \<Longrightarrow> R ^ k \<le> n \<Longrightarrow> k < length (natToString R n)"
proof (induction k arbitrary: n)
  case 0
  then show ?case using natToString_nonempty[of R n] by (cases "natToString R n") auto
next
  case (Suc k)
  have "R * R ^ k \<le> n" using Suc.prems by simp
  moreover have "R ^ k \<ge> 1" using Suc.prems(1) by simp
  ultimately have nR: "\<not> n < R"
    by (metis One_nat_def Suc.prems(2) leD less_le_trans nat_mult_1_right mult_le_mono2 power_Suc)
  then have e: "natToString R n = natToString R (n div R) @ [digitChar (n mod R)]"
    using Suc.prems by (subst natToString.simps) simp
  have "R ^ k \<le> n div R"
    using Suc.prems by (simp add: less_eq_div_iff_mult_less_eq mult.commute)
  then have "k < length (natToString R (n div R))" using Suc.IH Suc.prems(1) by simp
  then show ?case using e by simp
qed

lemma strVal_decStr: "strVal 10 (decStr n) = n"
  by (simp add: decStr_def natToString_val)

lemma Snowflake_instanceNumber:
  assumes "allDigits 16 iid" "iid \<noteq> []" "0 < strVal 16 iid"
  shows "instanceNumber (Snowflake rnd0 draw \<lparr>opt_offset = off, opt_instanceId = Some iid\<rparr>) =
           natToString 2 (toDouble (strVal 16 iid) mod 24 + 1000)"
    and "length (instanceNumber (Snowflake rnd0 draw \<lparr>opt_offset = off, opt_instanceId = Some iid\<rparr>)) = 10"
proof -
  define v where "v = strVal 16 iid"
  define p where "p = padStart 32 CHR ''0'' iid"
  have ph: "allDigits 16 p" unfolding p_def using assms(1) by (intro allDigits_padStart) simp_all
  have pv: "strVal 16 p = v" by (simp add: p_def v_def strVal_padStart)
  have hd: "hexToDec p = Some (decStr v)" using hexToDec_hex[OF ph] pv by simp
  have ds: "decStr v = natToString 10 v" using assms(3) by (simp add: decStr_def v_def)
  have "allDigits 10 (decStr v)" by (rule allDigits_decStr)
  moreover have "decStr v \<noteq> []" by (simp add: ds natToString_nonempty)
  ultimately have pi: "parseInt (decStr v) 0 = Num (int (toDouble v))"
    by (simp add: parseInt_decimal strVal_decStr)
  define f where "f = toDouble v mod 24 + 1000"
  have inum: "jsAdd (jsRem (parseInt (decStr v) 0) 24) 1000 = Num (int f)"
    by (simp add: pi jsRem_def jsAdd_def f_def zmod_int)
  have fl: "length (natToString 2 f) = 10"
  proof -
    have "f < 2 ^ 10" by (simp add: f_def)
    then have a: "length (natToString 2 f) \<le> 10" by (intro natToString_length) simp_all
    have "2 ^ 9 \<le> f" by (simp add: f_def)
    then have "9 < length (natToString 2 f)" by (intro natToString_length_ge) simp_all
    then show ?thesis using a by simp
  qed
  have "instanceNumber (Snowflake rnd0 draw \<lparr>opt_offset = off, opt_instanceId = Some iid\<rparr>) =
      padStart 5 CHR ''0'' (natToString 2 f)"
    using assms(2) hd inum by (simp add: Snowflake_def Let_def p_def[symmetric] numToString_nat)
  also have "\<dots> = natToString 2 f" using fl by (simp add: padStart_def)
  finally show "instanceNumber (Snowflake rnd0 draw \<lparr>opt_offset = off, opt_instanceId = Some iid\<rparr>) =
           natToString 2 (toDouble (strVal 16 iid) mod 24 + 1000)"
    by (simp add: f_def v_def)
  then show "length (instanceNumber (Snowflake rnd0 draw \<lparr>opt_offset = off, opt_instanceId = Some iid\<rparr>)) = 10"
    using fl by (simp add: f_def v_def)
qed

lemma strVal_take:
  assumes "allDigits R s"
  shows "strVal R (take k s) = strVal R s div R ^ (length s - k)"
proof -
  have d: "allDigits R (drop k s)" using assms by (auto simp: allDigits_def dest: in_set_dropD)
  have "strVal R s = strVal R (take k s @ drop k s)" by simp
  also have "\<dots> = strVal R (take k s) * R ^ (length s - k) + strVal R (drop k s)"
    by (simp only: strVal_append length_drop)
  finally have e: "strVal R s = strVal R (take k s) * R ^ (length s - k) + strVal R (drop k s)" .
  have "strVal R (drop k s) < R ^ (length s - k)" using strVal_bound[OF d] by simp
  then have "(strVal R (take k s) * R ^ (length s - k) + strVal R (drop k s)) div R ^ (length s - k)
      = strVal R (take k s)"
    by (cases "R ^ (length s - k) = 0") simp_all
  then show ?thesis using e by simp
qed

lemma generate_truncates:
  assumes "allDigits 2 (instanceNumber s)" "offset s \<le> now - epoch"
    and "23 < length (decStr (idNumber (tick s now)))"
  shows "fst (generate s now) = Inr (take 23 (decStr (idNumber (tick s now))))"
    and "strVal 10 (take 23 (decStr (idNumber (tick s now)))) =
           idNumber (tick s now) div 10 ^ (length (decStr (idNumber (tick s now))) - 23)"
proof -
  show "fst (generate s now) = Inr (take 23 (decStr (idNumber (tick s now))))"
    using generate_value[OF assms(1,2)] assms(3) by (simp add: padStart_def)
  show "strVal 10 (take 23 (decStr (idNumber (tick s now)))) =
           idNumber (tick s now) div 10 ^ (length (decStr (idNumber (tick s now))) - 23)"
    using strVal_take[OF allDigits_decStr, of 23 "idNumber (tick s now)"] by (simp add: strVal_decStr)
qed

section \<open>Successive calls\<close>

lemma snd_generate: "snd (generate s now) = tick s now"
  by (simp add: generate_tick split: option.splits)

lemma paced_step:
  assumes "paced s (now # nows)"
  shows "paced (tick s now) nows" and "rank s < rank (tick s now)"
proof -
  have srt: "sorted nows" and le: "\<forall>n \<in> set nows. now \<le> n"
    using assms by (auto simp: paced_def)
  have q: "seq s \<le> 4095" using assms by (simp add: paced_def)
  have lt: "lastTime s \<le> now - epoch" using assms by (simp add: paced_def)
  have cnt: "\<forall>n \<in> set nows. count_list nows n \<le> 4096"
    using assms by (auto simp: paced_def split: if_splits)
  have cnow: "count_list nows now + 1 \<le> 4096" using assms by (simp add: paced_def)
  have eqc: "lastTime s = now - epoch \<Longrightarrow> seq s + (count_list nows now + 1) \<le> 4096"
    using assms by (simp add: paced_def)
  show "rank s < rank (tick s now)"
    using q lt by (auto simp: rank_def tick_def)
  show "paced (tick s now) nows"
  proof (cases "lastTime s = now - epoch \<and> seq s + 1 > 4095")
    case True
    then have tk: "tick s now = s\<lparr>seq := 0, lastTime := now - epoch + 1\<rparr>"
      by (simp add: tick_def)
    have "count_list nows now = 0" using eqc True by simp
    then have "now \<notin> set nows" by (simp add: count_list_0_iff)
    then have "\<forall>n \<in> set nows. now + 1 \<le> n"
    proof (intro ballI)
      fix n assume n: "n \<in> set nows" and nn: "now \<notin> set nows"
      then have "now \<le> n" "n \<noteq> now" using le by auto
      then show "now + 1 \<le> n" by linarith
    qed
    then show ?thesis using srt cnt by (auto simp: paced_def tk)
  next
    case False
    then have tk: "lastTime (tick s now) = now - epoch"
      "seq (tick s now) = (if lastTime s = now - epoch then seq s + 1 else 0)"
      by (auto simp: tick_def)
    have "seq (tick s now) \<le> 4095" by (rule tick_seq)
    moreover have "\<forall>n \<in> set nows. lastTime (tick s now) = n - epoch \<longrightarrow>
        seq (tick s now) + count_list nows n \<le> 4096"
      using tk eqc cnow by auto
    ultimately show ?thesis using srt cnt le by (auto simp: paced_def tk(1))
  qed
qed

lemma ticks_rank:
  "paced s nows \<Longrightarrow>
   sorted_wrt (<) (map rank (ticks s nows)) \<and> (\<forall>s' \<in> set (ticks s nows). rank s < rank s')"
proof (induction nows arbitrary: s)
  case Nil
  then show ?case by simp
next
  case (Cons now nows)
  note st = paced_step[OF Cons.prems]
  from Cons.IH[OF st(1)] st(2) show ?case by fastforce
qed

lemma rank_idNumber:
  assumes "allDigits 2 (instanceNumber a)" "instanceNumber b = instanceNumber a"
    "rnd b = rnd a" "offset b = offset a" "rnd a < 1024"
    "seq a \<le> 4095" "seq b \<le> 4095" "offset a \<le> lastTime a" "rank a < rank b"
  shows "idNumber a < idNumber b"
proof -
  define M where "M = (2::nat) ^ length (instanceNumber a)"
  define I where "I = strVal 2 (instanceNumber a)"
  define Ta where "Ta = nat (lastTime a - offset a)"
  define Tb where "Tb = nat (lastTime b - offset a)"
  have ob: "offset b \<le> lastTime b" using assms(4,6,7,8,9) by (simp add: rank_def)
  have fa: "idNumber a = ((Ta * M + I) * 2 ^ 12 + seq a) * 2 ^ 10 + rnd a"
    using idNumber_formula[of a] assms by (simp add: M_def I_def Ta_def)
  have fb: "idNumber b = ((Tb * M + I) * 2 ^ 12 + seq b) * 2 ^ 10 + rnd a"
    using idNumber_formula[of b] assms ob by (simp add: M_def I_def Tb_def)
  have M1: "1 \<le> M" by (simp add: M_def)
  have "Ta < Tb \<or> (Ta = Tb \<and> seq a < seq b)"
    using assms(4,6,7,8,9) ob by (auto simp: rank_def Ta_def Tb_def)
  then show ?thesis
  proof
    assume "Ta < Tb"
    then have "Ta + 1 \<le> Tb" by simp
    then have "(Ta + 1) * M \<le> Tb * M" by (rule mult_le_mono1)
    then have "Ta * M + I + 1 \<le> Tb * M + I" using M1 by (simp add: algebra_simps)
    then have "(Ta * M + I + 1) * 2 ^ 12 \<le> (Tb * M + I) * 2 ^ 12" by (rule mult_le_mono1)
    then have "(Ta * M + I) * 2 ^ 12 + seq a < (Tb * M + I) * 2 ^ 12 + seq b"
      using assms(6) by (simp add: algebra_simps)
    then show ?thesis by (simp add: fa fb)
  next
    assume "Ta = Tb \<and> seq a < seq b"
    then show ?thesis by (simp add: fa fb)
  qed
qed

section \<open>Evaluation at the example state\<close>

lemma digitChar_dec:
  "digitChar 0 = CHR ''0''" "digitChar (Suc 0) = CHR ''1''" "digitChar 2 = CHR ''2''"
  "digitChar 3 = CHR ''3''" "digitChar 4 = CHR ''4''" "digitChar 5 = CHR ''5''"
  "digitChar 6 = CHR ''6''" "digitChar 7 = CHR ''7''" "digitChar 8 = CHR ''8''"
  "digitChar 9 = CHR ''9''"
  by code_simp+

lemma demo_fields:
  "seq demo = 0" "rnd demo = 5" "offset demo = 0" "lastTime demo = 0"
  "instanceNumber demo = ''1111101001''"
  by (simp_all add: demo_def)

lemma demo_digits: "allDigits 2 (instanceNumber demo)"
  by (simp add: demo_def isDigitIn_def digitValue_def)





lemma tick_demo_far: "tick demo 36303856888832 = demo\<lparr>seq := 0, lastTime := 35184372088832\<rparr>"
  by (simp add: tick_def demo_def epoch_def)

lemma strVal_inst: "strVal 2 ''1111101001'' = 1001"
  by (simp add: strVal_def digitValue_def)

lemma idNumber_demo_far: "idNumber (tick demo 36303856888832) = 151115727451832845336581"
  using idNumber_formula[of "demo\<lparr>seq := 0, lastTime := 35184372088832\<rparr>"] demo_digits
  by (simp add: tick_demo_far demo_fields strVal_inst)

lemma decStr_far: "decStr 151115727451832845336581 = ''151115727451832845336581''"
  by (simp add: decStr_def natToString.simps digitChar_dec)

lemma generate_demo_far: "fst (generate demo 36303856888832) = Inr ''15111572745183284533658''"
  using generate_value[OF demo_digits, of 36303856888832]
  by (simp add: idNumber_demo_far decStr_far padStart_def demo_fields epoch_def)

lemma dec_char_code: "isDigitIn 10 c \<Longrightarrow> (of_char c :: nat) = 48 + dv c"
  by (auto simp: isDigitIn_def dv_def digitValue_def Let_def split: if_splits)

lemma dec_char_inj: "isDigitIn 10 a \<Longrightarrow> isDigitIn 10 b \<Longrightarrow> dv a = dv b \<Longrightarrow> a = b"
proof -
  assume "isDigitIn 10 a" "isDigitIn 10 b" "dv a = dv b"
  then have "(of_char a :: nat) = of_char b" by (simp add: dec_char_code)
  then show "a = b" by simp
qed

lemma strVal_Cons_dv: "strVal R (c # cs) = dv c * R ^ length cs + strVal R cs"
  by (simp add: strVal_Cons dv_def)

lemma strLess_digits:
  "length a = length b \<Longrightarrow> allDigits 10 a \<Longrightarrow> allDigits 10 b \<Longrightarrow>
   strVal 10 a < strVal 10 b \<Longrightarrow> strLess a b"
proof (induction a b rule: list_induct2)
  case Nil
  then show ?case by simp
next
  case (Cons x xs y ys)
  have dx: "isDigitIn 10 x" "allDigits 10 xs" and dy: "isDigitIn 10 y" "allDigits 10 ys"
    using Cons.prems by simp_all
  have bx: "strVal 10 xs < 10 ^ length xs" using strVal_bound[OF dx(2)] .
  have by': "strVal 10 ys < 10 ^ length xs" using strVal_bound[OF dy(2)] Cons.hyps by simp
  have lt: "dv x * 10 ^ length xs + strVal 10 xs < dv y * 10 ^ length xs + strVal 10 ys"
    using Cons.prems(3) Cons.hyps by (simp add: strVal_Cons_dv)
  consider "dv x < dv y" | "dv x = dv y" | "dv y < dv x" by linarith
  then show ?case
  proof cases
    case 1
    then show ?thesis using dx(1) dy(1) by (simp add: dec_char_code)
  next
    case 2
    then have "x = y" using dx(1) dy(1) by (simp add: dec_char_inj)
    moreover have "strVal 10 xs < strVal 10 ys" using lt 2 by simp
    ultimately show ?thesis using Cons.IH dx(2) dy(2) by simp
  next
    case 3
    then have "dv y + 1 \<le> dv x" by simp
    then have "(dv y + 1) * 10 ^ length xs \<le> dv x * 10 ^ length xs" by (rule mult_le_mono1)
    then have False using lt by' by (simp add: algebra_simps)
    then show ?thesis ..
  qed
qed

lemma fmt23_small:
  assumes "n < 10 ^ 23"
  shows "length (fmt23 n) = 23" "allDigits 10 (fmt23 n)" "strVal 10 (fmt23 n) = n"
proof -
  have "length (decStr n) \<le> 23"
  proof (cases "n = 0")
    case True
    then show ?thesis by (simp add: decStr_def)
  next
    case False
    have "length (natToString 10 n) \<le> 23" using assms by (intro natToString_length) simp_all
    then show ?thesis using False by (simp add: decStr_def)
  qed
  then have e: "fmt23 n = padStart 23 CHR ''0'' (decStr n)"
    by (simp add: fmt23_def length_padStart)
  show "length (fmt23 n) = 23" by (simp add: fmt23_def length_padStart)
  show "allDigits 10 (fmt23 n)" unfolding e by (intro allDigits_padStart allDigits_decStr) simp
  show "strVal 10 (fmt23 n) = n" unfolding e by (simp add: strVal_padStart strVal_decStr)
qed

lemma generateMany_ticks:
  "allDigits 2 (instanceNumber s) \<Longrightarrow> \<forall>now \<in> set nows. offset s \<le> now - epoch \<Longrightarrow>
   generateMany s nows = map (\<lambda>s'. Inr (fmt23 (idNumber s'))) (ticks s nows)"
proof (induction nows arbitrary: s)
  case Nil
  then show ?case by simp
next
  case (Cons now nows)
  have g: "generate s now = (Inr (fmt23 (idNumber (tick s now))), tick s now)"
    using generate_value[of s now] Cons.prems by (simp add: fmt23_def)
  have "generateMany (tick s now) nows =
      map (\<lambda>s'. Inr (fmt23 (idNumber s'))) (ticks (tick s now) nows)"
    using Cons.prems by (intro Cons.IH) simp_all
  then show ?case by (simp add: g)
qed

lemma ticks_fields:
  "s' \<in> set (ticks s nows) \<Longrightarrow>
   instanceNumber s' = instanceNumber s \<and> rnd s' = rnd s \<and> offset s' = offset s \<and>
   seq s' \<le> 4095 \<and>
   (\<exists>now \<in> set nows. now - epoch \<le> lastTime s' \<and> lastTime s' \<le> now - epoch + 1)"
proof (induction nows arbitrary: s)
  case Nil
  then show ?case by simp
next
  case (Cons now nows)
  show ?case
  proof (cases "s' = tick s now")
    case True
    have "lastTime (tick s now) \<le> now - epoch + 1" by (simp add: tick_def)
    then show ?thesis using True tick_seq[of s now] tick_lastTime[of now s] by simp
  next
    case False
    then have "s' \<in> set (ticks (tick s now) nows)" using Cons.prems by simp
    from Cons.IH[OF this] show ?thesis by auto
  qed
qed

lemma idNumber_bound:
  assumes "allDigits 2 (instanceNumber s)" "length (instanceNumber s) = 10"
    "offset s \<le> lastTime s" "seq s \<le> 4095" "rnd s < 1024"
  shows "idNumber s < (nat (lastTime s - offset s) + 1) * 2 ^ 32"
proof -
  have "strVal 2 (instanceNumber s) < 2 ^ 10"
    using strVal_bound[OF assms(1)] assms(2) by simp
  then show ?thesis using idNumber_formula[of s] assms by simp
qed

lemma generateMany_increasing:
  assumes inst: "allDigits 2 (instanceNumber s)" "length (instanceNumber s) = 10"
    and rnd: "rnd s < 1024" and fresh: "seq s = 0"
    and clock: "sorted nows"
    and rate: "\<forall>now \<in> set nows. count_list nows now \<le> 4096"
    and range: "\<forall>now \<in> set nows. offset s \<le> now - epoch \<and>
                  (now - epoch - offset s + 2) * 2 ^ 32 \<le> 10 ^ 23"
  shows "\<exists>ids. generateMany s nows = map Inr ids
           \<and> (\<forall>d \<in> set ids. length d = 23 \<and> allDigits 10 d)
           \<and> sorted_wrt (\<lambda>a b. strVal 10 a < strVal 10 b) ids
           \<and> sorted_wrt strLess ids"
proof -
  define sts where "sts = ticks s nows"
  define ids where "ids = map (\<lambda>s'. fmt23 (idNumber s')) sts"
  have gm: "generateMany s nows = map Inr ids"
    using generateMany_ticks[OF inst(1)] range by (simp add: ids_def sts_def)
  have fields: "\<And>s'. s' \<in> set sts \<Longrightarrow>
      instanceNumber s' = instanceNumber s \<and> rnd s' = rnd s \<and> offset s' = offset s \<and>
      seq s' \<le> 4095 \<and> offset s \<le> lastTime s' \<and> idNumber s' < 10 ^ 23"
  proof -
    fix s' assume "s' \<in> set sts"
    then have f: "instanceNumber s' = instanceNumber s" "rnd s' = rnd s" "offset s' = offset s"
        "seq s' \<le> 4095"
      and ex: "\<exists>now \<in> set nows. now - epoch \<le> lastTime s' \<and> lastTime s' \<le> now - epoch + 1"
      using ticks_fields[of s' s nows] by (auto simp: sts_def)
    from ex obtain now where now: "now \<in> set nows" "now - epoch \<le> lastTime s'"
        "lastTime s' \<le> now - epoch + 1" by auto
    have o: "offset s \<le> now - epoch" and b: "(now - epoch - offset s + 2) * 2 ^ 32 \<le> 10 ^ 23"
      using range now(1) by auto
    have ol: "offset s \<le> lastTime s'" using o now(2) by simp
    have "idNumber s' < (nat (lastTime s' - offset s') + 1) * 2 ^ 32"
      using f ol inst rnd by (intro idNumber_bound) simp_all
    then have "int (idNumber s') < int ((nat (lastTime s' - offset s') + 1) * 2 ^ 32)"
      by (simp only: of_nat_less_iff)
    also have "\<dots> = (lastTime s' - offset s + 1) * 2 ^ 32"
      using ol f(3) by simp
    also have "\<dots> \<le> (now - epoch - offset s + 2) * 2 ^ 32" using now(3) by simp
    also have "\<dots> \<le> 10 ^ 23" by (rule b)
    finally have "int (idNumber s') < 10 ^ 23" .
    then have "idNumber s' < 10 ^ 23" by (simp only: of_nat_less_numeral_power_cancel_iff)
    then show "instanceNumber s' = instanceNumber s \<and> rnd s' = rnd s \<and> offset s' = offset s \<and>
      seq s' \<le> 4095 \<and> offset s \<le> lastTime s' \<and> idNumber s' < 10 ^ 23"
      using f ol by simp
  qed
  have ranks: "sorted_wrt (\<lambda>a b. rank a < rank b) sts"
  proof (cases nows)
    case Nil
    then show ?thesis by (simp add: sts_def)
  next
    case (Cons n0 rest)
    have t1: "lastTime (tick s n0) = n0 - epoch" "seq (tick s n0) \<le> 1"
      using fresh by (auto simp: tick_def)
    have le: "\<forall>n \<in> set rest. n0 \<le> n" and srt: "sorted rest" using clock Cons by auto
    have c0: "count_list rest n0 + 1 \<le> 4096" using rate Cons by simp
    have cr: "\<forall>n \<in> set rest. count_list rest n \<le> 4096"
    proof
      fix n assume "n \<in> set rest"
      then have "count_list (n0 # rest) n \<le> 4096" using rate Cons by simp
      moreover have "count_list rest n \<le> count_list (n0 # rest) n" by simp
      ultimately show "count_list rest n \<le> 4096" by (rule order_trans[rotated])
    qed
    have "paced (tick s n0) rest"
      unfolding paced_def using t1 le srt c0 cr by auto
    from ticks_rank[OF this] show ?thesis
      by (simp add: sts_def Cons sorted_wrt_map)
  qed
  have nums: "sorted_wrt (\<lambda>a b. idNumber a < idNumber b) sts"
  proof (rule sorted_wrt_mono_rel[OF _ ranks])
    fix a b assume a: "a \<in> set sts" and b: "b \<in> set sts" and r: "rank a < rank b"
    note fa = fields[OF a] and fb = fields[OF b]
    show "idNumber a < idNumber b"
      using fa fb inst rnd r by (intro rank_idNumber) simp_all
  qed
  have p1: "\<forall>d \<in> set ids. length d = 23 \<and> allDigits 10 d"
  proof
    fix d assume "d \<in> set ids"
    then obtain a where a: "a \<in> set sts" and d: "d = fmt23 (idNumber a)" by (auto simp: ids_def)
    have "idNumber a < 10 ^ 23" using fields[OF a] by simp
    then show "length d = 23 \<and> allDigits 10 d" unfolding d by (simp only: fmt23_small(1,2))
  qed
  have p2: "sorted_wrt (\<lambda>a b. strVal 10 a < strVal 10 b) ids"
    unfolding ids_def sorted_wrt_map
  proof (rule sorted_wrt_mono_rel[OF _ nums])
    fix a b assume a: "a \<in> set sts" and b: "b \<in> set sts" and r: "idNumber a < idNumber b"
    have "idNumber a < 10 ^ 23" "idNumber b < 10 ^ 23" using fields[OF a] fields[OF b] by simp_all
    then have "strVal 10 (fmt23 (idNumber a)) = idNumber a" "strVal 10 (fmt23 (idNumber b)) = idNumber b"
      by (simp_all only: fmt23_small(3))
    then show "strVal 10 (fmt23 (idNumber a)) < strVal 10 (fmt23 (idNumber b))" using r by simp
  qed
  have p3: "sorted_wrt strLess ids"
  proof (rule sorted_wrt_mono_rel[OF _ p2])
    fix a b assume "a \<in> set ids" "b \<in> set ids" "strVal 10 a < strVal 10 b"
    then show "strLess a b" using p1 by (intro strLess_digits) simp_all
  qed
  show ?thesis using gm p1 p2 p3 by blast
qed

subsection \<open>Examples beyond 23 digits and before the epoch\<close>

lemma idNumber_demo:
  "0 \<le> T \<Longrightarrow> q < 4096 \<Longrightarrow>
   idNumber (demo\<lparr>seq := q, lastTime := T\<rparr>) = ((nat T * 1024 + 1001) * 4096 + q) * 1024 + 5"
  using idNumber_formula[of "demo\<lparr>seq := q, lastTime := T\<rparr>"] demo_digits
  by (simp add: demo_fields strVal_inst)

lemma ticks_demo_late:
  "ticks demo [24402549165385, 24402549165386] =
     [demo\<lparr>seq := 0, lastTime := 23283064365385\<rparr>, demo\<lparr>seq := 0, lastTime := 23283064365386\<rparr>]"
  by (simp add: tick_def demo_def epoch_def)

lemma fmt23_late1: "fmt23 99999999999995767947269 = ''99999999999995767947269''"
  by (simp add: fmt23_def decStr_def natToString.simps digitChar_dec padStart_def)

lemma fmt23_late2: "fmt23 100000000000000062914565 = ''10000000000000006291456''"
  by (simp add: fmt23_def decStr_def natToString.simps digitChar_dec padStart_def)

lemma generateMany_demo_late:
  "generateMany demo [24402549165385, 24402549165386] =
     [Inr ''99999999999995767947269'', Inr ''10000000000000006291456'']"
proof -
  have "\<forall>now \<in> set [24402549165385, 24402549165386]. offset demo \<le> now - epoch"
    by (simp add: demo_fields epoch_def)
  from generateMany_ticks[OF demo_digits this]
  have "generateMany demo [24402549165385, 24402549165386] =
      map (\<lambda>s'. Inr (fmt23 (idNumber s'))) (ticks demo [24402549165385, 24402549165386])" .
  also have "\<dots> = [Inr ''99999999999995767947269'', Inr ''10000000000000006291456'']"
    unfolding ticks_demo_late by (simp add: idNumber_demo fmt23_late1 fmt23_late2)
  finally show ?thesis .
qed

lemma strVal_late:
  "strVal 10 ''99999999999995767947269'' = 99999999999995767947269"
  "strVal 10 ''10000000000000006291456'' = 10000000000000006291456"
  by (simp_all add: strVal_def digitValue_def)

lemma replicate_numeral: "replicate (numeral k) x = x # replicate (pred_numeral k) x"
  by (simp add: numeral_eq_Suc)

lemma pre_epoch_bid:
  "bid_of (tick demo 1119484799999) (lastTime (tick demo 1119484799999)) =
     ''-111111010010000000000000000000101''"
  by (simp add: bid_of_def tick_def demo_def epoch_def numToString_def natToString.simps
      digitChar_dec padStart_def Let_def replicate_numeral)

lemma pre_epoch_nibbles:
  "nibbles ''-111111010010000000000000000000101'' 34 [] = ''-1fa400005''"
  by code_simp

lemma pre_epoch_hexToDec: "hexToDec ''-1fa400005'' = None"
  by code_simp

subsection \<open>The identifier 0\<close>

text \<open>
  For an identifier of value 0 \<open>convertBase\<close> writes the empty string, \<open>parseInt\<close> gives
  \<open>NaN\<close>, the fingerprint is the text \<open>00NaN\<close>, and \<open>generate\<close> ends in a TypeError.
\<close>

lemma hex_zero: "allDigits 16 ''00000000000000000000000000000000''"
  by (simp add: isDigitIn_def digitValue_def)

lemma strVal_zero: "strVal 16 ''00000000000000000000000000000000'' = 0"
  by (simp add: strVal_def digitValue_def)

lemma Snowflake_zero:
  "Snowflake 5 draw \<lparr>opt_offset = None, opt_instanceId = Some ''00000000000000000000000000000000''\<rparr> =
     \<lparr>seq = 0, rnd = 5, offset = 0, lastTime = 0,
      instanceId = ''00000000000000000000000000000000'', instanceNumber = ''00NaN''\<rparr>"
proof -
  have "hexToDec ''00000000000000000000000000000000'' = Some []"
    using hexToDec_hex[OF hex_zero] by (simp add: strVal_zero decStr_def)
  moreover have "parseInt [] 0 = NaN" by (simp add: parseInt_def stripHexPrefix_def)
  ultimately show ?thesis
    by (simp add: Snowflake_def Let_def padStart_def jsRem_def jsAdd_def numToString_def replicate_numeral)
qed

lemma zero_bid:
  "bid_of (tick \<lparr>seq = 0, rnd = 5, offset = 0, lastTime = 0,
      instanceId = ''00000000000000000000000000000000'', instanceNumber = ''00NaN''\<rparr> 1793655420000)
      674170620000 =
   ''100111001111011110110011010010000110000000NaN0000000000000000000101''"
  by (simp add: bid_of_def tick_def epoch_def numToString_def natToString.simps
      digitChar_dec padStart_def Let_def replicate_numeral)

lemma zero_nibbles:
  "nibbles ''100111001111011110110011010010000110000000NaN0000000000000000000101'' 67 [] =
     ''4e7bd9a4300NaN00005''"
  by code_simp

lemma zero_hexToDec: "hexToDec ''4e7bd9a4300NaN00005'' = None"
  by code_simp

lemma generate_zero_identifier_fails:
  "fst (generate (Snowflake 5 (\<lambda>i. 0)
      \<lparr>opt_offset = None, opt_instanceId = Some ''00000000000000000000000000000000''\<rparr>) 1793655420000)
   = Inl TypeError"
proof -
  have t: "lastTime (tick \<lparr>seq = 0, rnd = 5, offset = 0, lastTime = 0,
      instanceId = ''00000000000000000000000000000000'', instanceNumber = ''00NaN''\<rparr> 1793655420000)
      = 674170620000"
    by (simp add: tick_def epoch_def)
  show ?thesis
    unfolding Snowflake_zero generate_tick t zero_bid
    by (simp add: zero_nibbles zero_hexToDec)
qed

section \<open>Properties of the generator\<close>

lemma Snowflake_fields:
  "seq (Snowflake rnd0 draw opts) = 0" "rnd (Snowflake rnd0 draw opts) = rnd0"
  "lastTime (Snowflake rnd0 draw opts) = 0"
  "offset (Snowflake rnd0 draw opts) = (case opt_offset opts of None \<Rightarrow> 0 | Some k \<Rightarrow> k)"
  by (simp_all add: Snowflake_def Let_def)





text \<open>
  C6, as amended. For every state whose fingerprint is a string of bits (as the constructor
  computes for an identifier that is a non-zero hexadecimal numeral) and every clock value
  not before epoch + offset, \<open>generate\<close> returns a string of exactly 23 decimal digits:
  the nibble loop gives a hexadecimal numeral of the same value as the bit string,
  \<open>hexToDec\<close> gives the decimal numeral of that value, and the result is this numeral
  padded with zeros to 23 characters and cut after the 23rd.
\<close>

theorem generate_returns_23_digits:
  assumes "allDigits 2 (instanceNumber s)" and "offset s \<le> now - epoch"
    and "s' = snd (generate s now)" and "bid = bid_of s' (lastTime s')"
  shows "\<exists>d. fst (generate s now) = Inr d \<and> length d = 23 \<and> allDigits 10 d
           \<and> allDigits 16 (nibbles bid (int (length bid)) [])
           \<and> strVal 16 (nibbles bid (int (length bid)) []) = strVal 2 bid
           \<and> hexToDec (nibbles bid (int (length bid)) []) = Some (decStr (strVal 2 bid))
           \<and> d = take 23 (padStart 23 CHR ''0'' (decStr (strVal 2 bid)))"
proof -
  have s': "s' = tick s now" using assms(3) by (simp add: snd_generate)
  have "offset s' \<le> lastTime s'" using assms(2) tick_lastTime[of now s] by (simp add: s')
  moreover have "allDigits 2 (instanceNumber s')" using assms(1) by (simp add: s')
  ultimately have b: "allDigits 2 bid" unfolding assms(4) by (rule bid_of_digits[rotated])
  note h = nibbles_hex[OF b]
  have g: "fst (generate s now) = Inr (take 23 (padStart 23 CHR ''0'' (decStr (strVal 2 bid))))"
    using generate_value[OF assms(1,2)] by (simp add: idNumber_def assms(4) s')
  have l: "length (take 23 (padStart 23 CHR ''0'' (decStr (strVal 2 bid)))) = 23"
    by (simp add: length_padStart)
  have a: "allDigits 10 (take 23 (padStart 23 CHR ''0'' (decStr (strVal 2 bid))))"
    by (intro allDigits_take allDigits_padStart allDigits_decStr) simp
  show ?thesis using g l a h hexToDec_hex[OF h(1)] by (simp add: h(2))
qed

text \<open>The example state at a clock value of the year 2026.\<close>

theorem generate_returns_23_digits_witness:
  "\<exists>d. fst (generate demo 1793655420000) = Inr d \<and> length d = 23 \<and> allDigits 10 d"
  using generate_returns_23_digits[OF demo_digits, of 1793655420000]
  by (auto simp: demo_fields epoch_def)

text \<open>
  C6 as stated fails: one millisecond before the epoch the elapsed time is -1, its binary
  numeral carries a minus sign, \<open>hexToDec\<close> gives \<open>null\<close>, and \<open>generate\<close> ends in a
  TypeError instead of returning a string.
\<close>

theorem generate_before_epoch_fails: "fst (generate demo 1119484799999) = Inl TypeError"
  by (simp add: generate_tick pre_epoch_bid pre_epoch_nibbles pre_epoch_hexToDec)

text \<open>
  C7, as amended. Whenever the decimal numeral of the composed bit string has more than 23
  digits, \<open>generate\<close> returns its first 23 characters: the 23 most significant digits, the
  value divided by the power of ten of the digits dropped. The digits lost are the least
  significant ones.
\<close>

theorem truncation_keeps_leading_digits:
  assumes "allDigits 2 (instanceNumber s)" and "offset s \<le> now - epoch"
    and "n = idNumber (snd (generate s now))" and "23 < length (decStr n)"
  shows "fst (generate s now) = Inr (take 23 (decStr n))
       \<and> strVal 10 (take 23 (decStr n)) = n div 10 ^ (length (decStr n) - 23)"
  using generate_truncates[OF assms(1,2)] assms(3,4) by (simp add: snd_generate)

text \<open>The example state at elapsed time \<open>2^45\<close>, where the numeral has 24 digits.\<close>

theorem truncation_keeps_leading_digits_witness:
  "fst (generate demo 36303856888832) = Inr (take 23 (decStr 151115727451832845336581))
   \<and> strVal 10 (take 23 (decStr 151115727451832845336581)) = 151115727451832845336581 div 10 ^ 1"
  using truncation_keeps_leading_digits[OF demo_digits, of 36303856888832 151115727451832845336581]
  by (simp add: demo_fields epoch_def snd_generate idNumber_demo_far decStr_far)

text \<open>
  C7 as stated fails: at elapsed time \<open>2^45\<close> the decimal numeral is
  151115727451832845336581 (24 digits) and \<open>generate\<close> returns 15111572745183284533658,
  its first 23 digits, not the last 23.
\<close>

theorem truncation_drops_last_digit:
  "decStr (idNumber (snd (generate demo 36303856888832))) = ''151115727451832845336581''
   \<and> fst (generate demo 36303856888832) = Inr ''15111572745183284533658''
   \<and> fst (generate demo 36303856888832) \<noteq> Inr (drop 1 ''151115727451832845336581'')"
  by (simp add: snd_generate idNumber_demo_far decStr_far generate_demo_far)

text \<open>
  C2, as amended. From a state with sequence counter 0 (as the constructor leaves it), a
  fingerprint of 10 bits and a random component below 1024, for clock readings that never
  decrease, with at most 4096 calls at any one reading, every reading at or after
  epoch + offset and early enough that (elapsed + 2) * 2^32 does not exceed 10^23: the
  calls return strings of 23 decimal digits that strictly increase in call order, as
  numbers and as strings. When the counter would pass 4095 it is set to 0 and the time
  used is one unit later.
\<close>

theorem generate_strictly_increasing:
  assumes "allDigits 2 (instanceNumber s)" and "length (instanceNumber s) = 10"
    and "rnd s < 1024" and "seq s = 0"
    and "sorted nows"
    and "\<forall>now \<in> set nows. count_list nows now \<le> 4096"
    and "\<forall>now \<in> set nows. offset s \<le> now - epoch \<and>
                  (now - epoch - offset s + 2) * 2 ^ 32 \<le> 10 ^ 23"
  shows "(\<exists>ids. generateMany s nows = map Inr ids
           \<and> (\<forall>d \<in> set ids. length d = 23 \<and> allDigits 10 d)
           \<and> sorted_wrt (\<lambda>a b. strVal 10 a < strVal 10 b) ids
           \<and> sorted_wrt strLess ids)
       \<and> (\<forall>s0 t. lastTime s0 = t - epoch \<and> 4095 < seq s0 + 1 \<longrightarrow>
             seq (snd (generate s0 t)) = 0 \<and> lastTime (snd (generate s0 t)) = t - epoch + 1)"
proof
  show "\<exists>ids. generateMany s nows = map Inr ids
           \<and> (\<forall>d \<in> set ids. length d = 23 \<and> allDigits 10 d)
           \<and> sorted_wrt (\<lambda>a b. strVal 10 a < strVal 10 b) ids
           \<and> sorted_wrt strLess ids"
    using assms by (rule generateMany_increasing)
  show "\<forall>s0 t. lastTime s0 = t - epoch \<and> 4095 < seq s0 + 1 \<longrightarrow>
             seq (snd (generate s0 t)) = 0 \<and> lastTime (snd (generate s0 t)) = t - epoch + 1"
    by (simp add: snd_generate tick_def)
qed

text \<open>Three calls, two of them in the same millisecond.\<close>

theorem generate_strictly_increasing_witness:
  "\<exists>ids. generateMany demo [1793655420000, 1793655420000, 1793655420001] = map Inr ids
           \<and> (\<forall>d \<in> set ids. length d = 23 \<and> allDigits 10 d)
           \<and> sorted_wrt (\<lambda>a b. strVal 10 a < strVal 10 b) ids
           \<and> sorted_wrt strLess ids"
proof -
  have "allDigits 2 (instanceNumber demo)" by (rule demo_digits)
  moreover have "length (instanceNumber demo) = 10" "rnd demo < 1024" "seq demo = 0"
    by (simp_all add: demo_fields)
  moreover have "sorted [1793655420000, 1793655420000, 1793655420001 :: int]" by simp
  moreover have "\<forall>now \<in> set [1793655420000, 1793655420000, 1793655420001 :: int].
      count_list [1793655420000, 1793655420000, 1793655420001] now \<le> 4096" by simp
  moreover have "\<forall>now \<in> set [1793655420000, 1793655420000, 1793655420001 :: int].
      offset demo \<le> now - epoch \<and> (now - epoch - offset demo + 2) * 2 ^ 32 \<le> 10 ^ 23"
    by (simp add: demo_fields epoch_def)
  ultimately show ?thesis by (rule generate_strictly_increasing[THEN conjunct1])
qed

text \<open>
  C2 as stated fails: with one call at each of two consecutive clock values, about 738
  years after the epoch, the number passes \<open>10^23\<close>; the second string is the first 23 of
  24 digits and is smaller than the first string, as a number and as a string.
\<close>

theorem generate_decreases_past_23_digits:
  "sorted [24402549165385, 24402549165386 :: int]
   \<and> count_list [24402549165385, 24402549165386 :: int] 24402549165385 \<le> 4096
   \<and> count_list [24402549165385, 24402549165386 :: int] 24402549165386 \<le> 4096
   \<and> generateMany demo [24402549165385, 24402549165386] =
        [Inr ''99999999999995767947269'', Inr ''10000000000000006291456'']
   \<and> strVal 10 ''10000000000000006291456'' < strVal 10 ''99999999999995767947269''
   \<and> strLess ''10000000000000006291456'' ''99999999999995767947269''"
  unfolding generateMany_demo_late strVal_late by simp

section \<open>The adapter: translation, writes and the registry\<close>

lemma filterStep_strict:
  assumes "isFilterable svc fld" "\<not> truthy (isMatchOf valueObj)"
    "valueObj \<noteq> VStr []" "valueObj \<noteq> VNull" "valueObj \<noteq> VUndef"
    "\<not> isArray valueObj" "typeof valueObj \<noteq> ''number''"
  shows "filterStep svc acc (fld, valueObj) = Inr (acc @ [VObj [(fld, valueObj)]])"
proof -
  have na: "(case valueObj of VArr vs \<Rightarrow> f vs | _ \<Rightarrow> g) = g" for f and g :: "jsval list"
    using assms(6) by (cases valueObj) (simp_all add: isArray_def)
  show ?thesis
    using assms(1-5,7)
    by (simp add: filterStep_def Let_def isFilterable_def isMatchOf_def na
        buildStandardStrict_def notNullish_def)
qed

lemma processFilterParams_strict:
  assumes "isFilterable svc fld" "\<not> truthy (isMatchOf valueObj)"
    "valueObj \<noteq> VStr []" "valueObj \<noteq> VNull" "valueObj \<noteq> VUndef"
    "\<not> isArray valueObj" "typeof valueObj \<noteq> ''number''"
  shows "processFilterParams svc (Some [(fld, valueObj)]) = Inr [VObj [(fld, valueObj)]]"
  using filterStep_strict[OF assms, of "[]"] by (simp add: processFilterParams_def)

lemma parseParams_only_filter:
  assumes "processFilterParams svc flt = Inr [q]"
  shows "parseParams svc (noParams\<lparr>p_filter := flt\<rparr>) = Inr (VObj [(''$and'', VArr [q])])"
  using assms by (simp add: parseParams_def noParams_def processSearchParams_def Let_def)

lemma mongoMatches_eq:
  assumes "\<not> isOperatorKey k" "CHR ''.'' \<notin> set k" "isLiteral v"
  shows "mongoMatches ext (VObj [(k, v)]) doc = eqMatch doc k v"
  using assms by (cases v) (auto simp: isOperatorKey_def)

lemma find_only_filter:
  assumes "parseParams svc (noParams\<lparr>p_filter := flt\<rparr>) = Inr q"
  shows "find_entities ext order svc coll (Some (noParams\<lparr>p_filter := flt\<rparr>)) =
           Inr (filter (mongoMatches ext q) (docs coll))"
  using assms by (simp add: find_entities_def createQuery_def noParams_def toArray_def Let_def)

lemma strict_filter_find:
  assumes "isFilterable svc fld" "\<not> truthy (isMatchOf valueObj)"
    "valueObj \<noteq> VStr []" "valueObj \<noteq> VNull" "valueObj \<noteq> VUndef"
    "\<not> isArray valueObj" "typeof valueObj \<noteq> ''number''"
    "\<not> isOperatorKey fld" "CHR ''.'' \<notin> set fld" "isLiteral valueObj"
  shows "find_entities ext order svc coll (Some (noParams\<lparr>p_filter := Some [(fld, valueObj)]\<rparr>)) =
           Inr (filter (\<lambda>doc. eqMatch doc fld valueObj) (docs coll))"
proof -
  note pf = processFilterParams_strict[OF assms(1-7)]
  note pp = parseParams_only_filter[OF pf]
  have "mongoMatches ext (VObj [(''$and'', VArr [VObj [(fld, valueObj)]])]) =
      (\<lambda>doc. eqMatch doc fld valueObj)"
    using mongoMatches_eq[OF assms(8-10)] by (simp add: fun_eq_iff)
  then show ?thesis using find_only_filter[OF pp] by simp
qed

lemma status_filterable: "isFilterable statusService ''status''"
  by (simp add: isFilterable_def statusService_def)

lemma isMatch_false_find_empty:
  "find_entities (\<lambda>q d. False) (\<lambda>s ds. ds) statusService statusDocs
     (Some (noParams\<lparr>p_filter := Some [(''status'', VObj [(''isMatch'', VBool False), (''values'', VBool True)])]\<rparr>))
   = Inr []"
proof -
  have "find_entities (\<lambda>q d. False) (\<lambda>s ds. ds) statusService statusDocs
     (Some (noParams\<lparr>p_filter := Some [(''status'', VObj [(''isMatch'', VBool False), (''values'', VBool True)])]\<rparr>))
     = Inr (filter (\<lambda>doc. eqMatch doc ''status'' (VObj [(''isMatch'', VBool False), (''values'', VBool True)]))
         (docs statusDocs))"
    by (rule strict_filter_find)
       (simp_all add: status_filterable isMatchOf_def getProp_def truthy_def isArray_def typeof_def
          isOperatorKey_def isLiteral_def)
  then show ?thesis by (simp add: statusDocs_def eqMatch_def)
qed

lemma filterStep_error: "filterStep svc acc e = Inl err \<Longrightarrow> err = TypeError"
  by (auto simp: filterStep_def Let_def split: if_splits)

lemma filterReduce_error: "filterReduce svc acc es = Inl err \<Longrightarrow> err = TypeError"
  by (induction es arbitrary: acc) (auto split: sum.splits dest: filterStep_error)

lemma parseParams_error: "parseParams svc ps = Inl err \<Longrightarrow> err = TypeError"
  by (auto simp: parseParams_def processFilterParams_def Let_def
      split: sum.splits option.splits dest: filterReduce_error)

lemma count_hint_fails:
  assumes "p_hint ps = Some h" "truthy h"
  shows "count ext svc coll (Some ps) = Inl TypeError"
proof (cases "parseParams svc ps")
  case (Inl err)
  then have "err = TypeError" by (rule parseParams_error)
  then show ?thesis using Inl by (simp add: count_def createQuery_def)
next
  case (Inr q)
  then show ?thesis using assms by (simp add: count_def createQuery_def)
qed

lemma truthy_object: "truthy (VObj h)"
  by (simp add: truthy_def)

lemma parseParams_ignores_paging:
  "parseParams svc (ps\<lparr>p_sort := a, p_collation := b, p_offset := c, p_limit := d\<rparr>) = parseParams svc ps"
  by (simp add: parseParams_def split: sum.splits)

lemma count_no_hint:
  assumes "p_hint ps = None" "parseParams svc ps = Inr q"
  shows "count ext svc coll (Some ps) = Inr (length (filter (mongoMatches ext q) (docs coll)))"
  using assms by (simp add: count_def createQuery_def countDocuments_def)

lemma find_no_paging:
  assumes "p_hint ps = None" "parseParams svc ps = Inr q"
  shows "find_entities ext order svc coll
           (Some (ps\<lparr>p_sort := None, p_collation := None, p_offset := None, p_limit := None\<rparr>)) =
         Inr (filter (mongoMatches ext q) (docs coll))"
  using assms
  by (simp add: find_entities_def createQuery_def parseParams_ignores_paging toArray_def Let_def)

lemma map_of_update_foldl:
  "distinct (map fst src) \<Longrightarrow>
   map_of (foldl (\<lambda>obj (k, v). AList.update k v obj) tgt src) key =
     (case map_of src key of Some v \<Rightarrow> Some v | None \<Rightarrow> map_of tgt key)"
proof (induction src arbitrary: tgt)
  case Nil
  then show ?case by simp
next
  case (Cons kv src)
  obtain k v where kv: "kv = (k, v)" by (cases kv)
  have d: "distinct (map fst src)" and nk: "k \<notin> fst ` set src" using Cons.prems kv by auto
  have nk': "map_of src k = None" using nk by (simp add: map_of_eq_None_iff)
  show ?case
    using Cons.IH[OF d, of "AList.update k v tgt"] nk'
    by (auto simp: kv update_conv' split: option.splits)
qed

lemma map_of_spread:
  "distinct (map fst src) \<Longrightarrow>
   map_of (spread tgt src) key = (case map_of src key of Some v \<Rightarrow> Some v | None \<Rightarrow> map_of tgt key)"
  unfolding spread_def by (rule map_of_update_foldl)

lemma addIdToEntity_generated:
  assumes "s_primaryField svc = Some pf" "generated pf \<noteq> ''user''"
    "allDigits 2 (instanceNumber sf)" "offset sf \<le> now - epoch"
  shows "addIdToEntity svc sf now entity =
     (Inr (spread [(columnName pf, VStr (fmt23 (idNumber (tick sf now))))] entity), tick sf now)"
  using assms generate_value[OF assms(3,4)] by (simp add: addIdToEntity_def fmt23_def)

lemma insertOne_keeps:
  "map_of doc key = Some v \<Longrightarrow> map_of (fst (insertOne coll doc)) key = Some v"
  by (auto simp: insertOne_def Let_def split: option.splits)

lemma insertOne_docs:
  "docs (snd (insertOne coll doc)) = docs coll @ [fst (insertOne coll doc)]"
  by (simp add: insertOne_def Let_def)

lemma insertDocs_docs:
  "docs (snd (insertDocs coll ds)) = docs coll @ fst (insertDocs coll ds)"
  by (induction ds arbitrary: coll) (simp_all add: split_beta Let_def insertOne_docs)

lemma insertDocs_keeps:
  "\<forall>d \<in> set ds. map_of d key \<noteq> None \<Longrightarrow>
   map (\<lambda>d. map_of d key) (fst (insertDocs coll ds)) = map (\<lambda>d. map_of d key) ds"
proof (induction ds arbitrary: coll)
  case Nil
  then show ?case by simp
next
  case (Cons d ds)
  then obtain v where v: "map_of d key = Some v" by auto
  show ?case using Cons insertOne_keeps[OF v, of coll] v by (simp add: split_beta Let_def)
qed

lemma addIds_generated:
  assumes "s_primaryField svc = Some pf" "generated pf \<noteq> ''user''"
    "allDigits 2 (instanceNumber sf)" "\<forall>i. offset sf \<le> now_at i - epoch"
    "\<forall>e \<in> set entities. distinct (map fst e) \<and> map_of e (columnName pf) \<noteq> None"
  shows "\<exists>es sf'. addIds svc sf now_at i entities = (Inr es, sf') \<and>
           map (\<lambda>d. map_of d (columnName pf)) es = map (\<lambda>e. map_of e (columnName pf)) entities"
  using assms(3-5)
proof (induction entities arbitrary: sf i)
  case Nil
  then show ?case by simp
next
  case (Cons e entities)
  have o: "offset sf \<le> now_at i - epoch" using Cons.prems(2) by simp
  note a = addIdToEntity_generated[OF assms(1,2) Cons.prems(1) o, of e]
  have "allDigits 2 (instanceNumber (tick sf (now_at i)))" using Cons.prems(1) by simp
  moreover have "\<forall>j. offset (tick sf (now_at i)) \<le> now_at j - epoch" using Cons.prems(2) by simp
  moreover have "\<forall>e \<in> set entities. distinct (map fst e) \<and> map_of e (columnName pf) \<noteq> None"
    using Cons.prems(3) by (meson list.set_intros(2))
  ultimately obtain es sf' where
    r: "addIds svc (tick sf (now_at i)) now_at (i + 1) entities = (Inr es, sf')"
       "map (\<lambda>d. map_of d (columnName pf)) es = map (\<lambda>e. map_of e (columnName pf)) entities"
    using Cons.IH by blast
  have de: "distinct (map fst e)" and me: "map_of e (columnName pf) \<noteq> None"
    using Cons.prems(3) by (meson list.set_intros(1))+
  have "map_of (spread [(columnName pf, VStr (fmt23 (idNumber (tick sf (now_at i)))))] e) (columnName pf)
      = map_of e (columnName pf)"
    using me by (auto simp: map_of_spread[OF de] split: option.splits)
  then show ?case using a r by simp
qed

lemma constructed_state_ok:
  assumes "allDigits 16 iid" "iid \<noteq> []" "0 < strVal 16 iid" "rnd0 < 1024"
    and "s = Snowflake rnd0 draw \<lparr>opt_offset = off, opt_instanceId = Some iid\<rparr>"
  shows "allDigits 2 (instanceNumber s)" "length (instanceNumber s) = 10" "seq s = 0" "rnd s < 1024"
proof -
  show "allDigits 2 (instanceNumber s)"
    unfolding assms(5) Snowflake_instanceNumber(1)[OF assms(1-3)]
    by (rule allDigits_natToString) simp_all
  show "length (instanceNumber s) = 10"
    unfolding assms(5) by (rule Snowflake_instanceNumber(2)[OF assms(1-3)])
  show "seq s = 0" "rnd s < 1024" using assms(4,5) by (simp_all add: Snowflake_fields)
qed

lemma insertOne_fresh:
  "fst (insertOne coll doc) = (case map_of doc ''_id'' of None \<Rightarrow> doc @ [(''_id'', VObjectId (nextOid coll))] | Some _ \<Rightarrow> doc)"
  "snd (insertOne coll doc) = coll\<lparr>docs := docs coll @ [fst (insertOne coll doc)], nextOid := nextOid coll + 1\<rparr>"
  by (simp_all add: insertOne_def Let_def)

(* C9 *)

lemma insert_entity_keeps:
  assumes "s_primaryField svc = Some pf" and "generated pf \<noteq> ''user''"
    and "allDigits 2 (instanceNumber sf)" and "offset sf \<le> now - epoch"
    and "distinct (map fst entity)" and "map_of entity (columnName pf) = Some v"
  shows "\<exists>stored. insert_entity svc sf now Acknowledged coll entity =
            (Inr stored, tick sf now, coll\<lparr>docs := docs coll @ [stored], nextOid := nextOid coll + 1\<rparr>)
          \<and> map_of stored (columnName pf) = Some v"
proof -
  define e where "e = spread [(columnName pf, VStr (fmt23 (idNumber (tick sf now))))] entity"
  have a: "addIdToEntity svc sf now entity = (Inr e, tick sf now)"
    unfolding e_def by (rule addIdToEntity_generated[OF assms(1-4)])
  have m: "map_of e (columnName pf) = Some v"
    using assms(6) by (simp add: e_def map_of_spread[OF assms(5)])
  have "insert_entity svc sf now Acknowledged coll entity =
      (Inr (fst (insertOne coll e)), tick sf now,
       coll\<lparr>docs := docs coll @ [fst (insertOne coll e)], nextOid := nextOid coll + 1\<rparr>)"
    using a insertOne_fresh(2)[of coll e] by (simp add: insert_entity_def)
  then show ?thesis using insertOne_keeps[OF m, of coll] by blast
qed

lemma insertMany_keeps:
  assumes "s_primaryField svc = Some pf" and "generated pf \<noteq> ''user''"
    and "allDigits 2 (instanceNumber sf)" and "\<forall>i. offset sf \<le> now_at i - epoch"
    and "\<forall>e \<in> set entities. distinct (map fst e) \<and> map_of e (columnName pf) \<noteq> None"
  shows "\<exists>r sf' stored. insertMany svc sf now_at Acknowledged coll entities flag =
            (Inr r, sf', coll\<lparr>docs := docs coll @ stored, nextOid := nextOid coll + length entities\<rparr>)
          \<and> map (\<lambda>d. map_of d (columnName pf)) stored = map (\<lambda>e. map_of e (columnName pf)) entities"
proof -
  obtain es sf' where
    r: "addIds svc sf now_at 0 entities = (Inr es, sf')"
       "map (\<lambda>d. map_of d (columnName pf)) es = map (\<lambda>e. map_of e (columnName pf)) entities"
    using addIds_generated[OF assms, of 0] by blast
  have len: "length es = length entities" using r(2) by (rule map_eq_imp_length_eq)
  have all: "\<forall>d \<in> set es. map_of d (columnName pf) \<noteq> None"
  proof
    fix d assume "d \<in> set es"
    then obtain i where i: "i < length es" "es ! i = d" by (auto simp: in_set_conv_nth)
    have "map (\<lambda>d. map_of d (columnName pf)) es ! i = map (\<lambda>e. map_of e (columnName pf)) entities ! i"
      using r(2) by simp
    then have "map_of d (columnName pf) = map_of (entities ! i) (columnName pf)"
      using i len by simp
    moreover have "entities ! i \<in> set entities" using i len by simp
    ultimately show "map_of d (columnName pf) \<noteq> None" using assms(5) by metis
  qed
  define stored where "stored = fst (insertDocs coll es)"
  have k: "map (\<lambda>d. map_of d (columnName pf)) stored = map (\<lambda>e. map_of e (columnName pf)) entities"
    using insertDocs_keeps[OF all, of coll] r(2) by (simp add: stored_def)
  have c: "snd (insertDocs coll es) = coll\<lparr>docs := docs coll @ stored, nextOid := nextOid coll + length entities\<rparr>"
    unfolding stored_def len[symmetric]
    by (induction es arbitrary: coll) (simp_all add: split_beta Let_def insertOne_fresh)
  have "\<exists>r. insertMany svc sf now_at Acknowledged coll entities flag =
      (Inr r, sf', coll\<lparr>docs := docs coll @ stored, nextOid := nextOid coll + length entities\<rparr>)"
    using r(1) c by (simp add: insertMany_def Let_def stored_def)
  then show ?thesis using k by blast
qed

lemma nameService_pf: "s_primaryField nameService = Some \<lparr>generated = ''system'', columnName = ''id''\<rparr>"
  by (simp add: nameService_def)

lemma tick_demo_now: "tick demo 1793655420000 = demo\<lparr>seq := 0, lastTime := 674170620000\<rparr>"
  by (simp add: tick_def demo_def epoch_def)

lemma fmt23_now: "fmt23 (idNumber (tick demo 1793655420000)) = ''02895540764828242018309''"
  by (simp add: tick_demo_now idNumber_demo fmt23_def decStr_def natToString.simps digitChar_dec
      padStart_def)

lemma addIds_demo:
  "addIds nameService demo (\<lambda>i. 1793655420000) 0 [[(''name'', VStr ''a'')]] =
     (Inr [[(''id'', VStr ''02895540764828242018309''), (''name'', VStr ''a'')]], tick demo 1793655420000)"
proof -
  have "addIdToEntity nameService demo 1793655420000 [(''name'', VStr ''a'')] =
      (Inr (spread [(''id'', VStr (fmt23 (idNumber (tick demo 1793655420000))))] [(''name'', VStr ''a'')]),
       tick demo 1793655420000)"
    using addIdToEntity_generated[OF nameService_pf _ demo_digits, of 1793655420000]
    by (simp add: demo_fields epoch_def)
  then show ?thesis by (simp add: fmt23_now spread_def)
qed

lemma findOneAndReplace_value:
  "findOneAndReplace ext q e ds = Inr (Some d, ds') \<Longrightarrow>
     (d = e \<or> (\<exists>oid. d = (''_id'', oid) # e)) \<and> d \<in> set ds' \<and> length ds' = length ds"
proof (induction ds arbitrary: ds')
  case Nil
  then show ?case by simp
next
  case (Cons x xs)
  show ?case
  proof (cases "mongoMatches ext q x")
    case True
    then show ?thesis using Cons.prems
      by (auto simp: Let_def split: option.splits if_splits)
  next
    case False
    then obtain r where r: "findOneAndReplace ext q e xs = Inr (Some d, r)" "ds' = x # r"
      using Cons.prems by (auto split: sum.splits)
    from Cons.IH[OF r(1)] r(2) show ?thesis by simp
  qed
qed



subsection \<open>Calls of other adapters on the registry\<close>







section \<open>Properties of the adapter\<close>

text \<open>
  C1, as amended. Take a filterable field whose name is a plain top-level name (no dot, no
  leading \<open>$\<close>) and a FilterSpec whose \<open>isMatch\<close> is not truthy, which is not a number, an
  array, \<open>null\<close>, \<open>undefined\<close> or the empty string, and which has no key that starts with
  \<open>$\<close>. Then \<open>processFilterParams\<close> builds the single predicate \<open>{field: FilterSpec}\<close>, a
  strict equality of the stored field with the FilterSpec value itself, the whole value
  and not its \<open>values\<close> member; \<open>find\<close> with this filter alone returns exactly the entities
  whose field equals that value (or, for a stored array, contains it). So the direct value
  \<open>{status: true}\<close> selects only the first of \<open>[{status:true},{status:false}]\<close>.
\<close>

theorem strict_filter_compares_whole_value:
  assumes "isFilterable svc fld" and "\<not> truthy (isMatchOf valueObj)"
    and "valueObj \<noteq> VStr []" and "valueObj \<noteq> VNull" and "valueObj \<noteq> VUndef"
    and "\<not> isArray valueObj" and "typeof valueObj \<noteq> ''number''"
    and "\<not> isOperatorKey fld" and "CHR ''.'' \<notin> set fld" and "isLiteral valueObj"
  shows "processFilterParams svc (Some [(fld, valueObj)]) = Inr [buildStandardStrict fld valueObj (typeof valueObj)]
       \<and> buildStandardStrict fld valueObj (typeof valueObj) = VObj [(fld, valueObj)]
       \<and> find_entities ext order svc coll (Some (noParams\<lparr>p_filter := Some [(fld, valueObj)]\<rparr>)) =
           Inr (filter (\<lambda>doc. eqMatch doc fld valueObj) (docs coll))"
  using processFilterParams_strict[OF assms(1-7)] strict_filter_find[OF assms] assms(7)
  by (simp add: buildStandardStrict_def)

text \<open>The filter \<open>{status: true}\<close> on the two entities gives the first one.\<close>

theorem strict_filter_compares_whole_value_witness:
  "find_entities (\<lambda>q d. False) (\<lambda>s ds. ds) statusService statusDocs
     (Some (noParams\<lparr>p_filter := Some [(''status'', VBool True)]\<rparr>))
   = Inr [[(''status'', VBool True)]]"
proof -
  have "find_entities (\<lambda>q d. False) (\<lambda>s ds. ds) statusService statusDocs
     (Some (noParams\<lparr>p_filter := Some [(''status'', VBool True)]\<rparr>))
     = Inr (filter (\<lambda>doc. eqMatch doc ''status'' (VBool True)) (docs statusDocs))"
    by (rule strict_filter_compares_whole_value[THEN conjunct2, THEN conjunct2])
       (simp_all add: status_filterable isMatchOf_def truthy_def isArray_def typeof_def
          isOperatorKey_def isLiteral_def)
  then show ?thesis by (simp add: statusDocs_def eqMatch_def)
qed

text \<open>
  C1 as stated fails: for \<open>{status: {isMatch:false, values:true}}\<close> the predicate compares
  \<open>status\<close> with the object \<open>{isMatch:false, values:true}\<close>, and neither entity is returned.
\<close>

theorem isMatch_false_spec_matches_nothing:
  "parseParams statusService
     (noParams\<lparr>p_filter := Some [(''status'', VObj [(''isMatch'', VBool False), (''values'', VBool True)])]\<rparr>)
     = Inr (VObj [(''$and'', VArr [VObj [(''status'', VObj [(''isMatch'', VBool False), (''values'', VBool True)])]])])
   \<and> find_entities (\<lambda>q d. False) (\<lambda>s ds. ds) statusService statusDocs
     (Some (noParams\<lparr>p_filter := Some [(''status'', VObj [(''isMatch'', VBool False), (''values'', VBool True)])]\<rparr>))
     = Inr []"
proof -
  have pf: "processFilterParams statusService
      (Some [(''status'', VObj [(''isMatch'', VBool False), (''values'', VBool True)])])
      = Inr [VObj [(''status'', VObj [(''isMatch'', VBool False), (''values'', VBool True)])]]"
    by (rule processFilterParams_strict)
       (simp_all add: status_filterable isMatchOf_def getProp_def truthy_def isArray_def typeof_def)
  show ?thesis using parseParams_only_filter[OF pf] isMatch_false_find_empty by simp
qed

text \<open>
  C3 fails on the code. With a primary field \<open>id\<close> generated by the system, inserting
  \<open>[{name: 'a'}]\<close> stores \<open>{id: '02895540764828242018309', name: 'a', _id: ObjectId(0)}\<close>;
  with \<open>returnEntities\<close> the call returns \<open>[{name: 'a'}]\<close>, its argument without the
  generated key, and without the flag it returns the driver's \<open>_id\<close> values, not the
  generated keys.
\<close>

theorem insertMany_returns_its_argument:
  "fst (insertMany nameService demo (\<lambda>i. 1793655420000) Acknowledged emptyColl [[(''name'', VStr ''a'')]] True)
     = Inr [VObj [(''name'', VStr ''a'')]]
   \<and> docs (snd (snd (insertMany nameService demo (\<lambda>i. 1793655420000) Acknowledged emptyColl
                       [[(''name'', VStr ''a'')]] True)))
     = [[(''id'', VStr ''02895540764828242018309''), (''name'', VStr ''a''), (''_id'', VObjectId 0)]]
   \<and> fst (insertMany nameService demo (\<lambda>i. 1793655420000) Acknowledged emptyColl [[(''name'', VStr ''a'')]] False)
     = Inr [VObjectId 0]"
  unfolding insertMany_def addIds_demo
  by (simp add: Let_def nameService_def emptyColl_def insertOne_def getProp_def)







text \<open>
  C9. With a primary field generated by the system, an entity that already has a value under
  the primary column keeps it: the spread assigns the entity's properties after the
  generated key, \<open>insert\<close> returns and stores a document with the caller's value, and
  \<open>insertMany\<close> stores, for each entity, a document with that entity's value. (The generator
  is still called, so its state must let it return, and the driver must acknowledge.)
\<close>

theorem caller_supplied_primary_key_is_kept:
  assumes "s_primaryField svc = Some pf" and "generated pf \<noteq> ''user''"
    and "allDigits 2 (instanceNumber sf)"
    and "offset sf \<le> now - epoch" and "\<forall>i. offset sf \<le> now_at i - epoch"
    and "distinct (map fst entity)" and "map_of entity (columnName pf) = Some v"
    and "\<forall>e \<in> set entities. distinct (map fst e) \<and> map_of e (columnName pf) \<noteq> None"
  shows "map_of (spread [(columnName pf, VStr gid)] entity) (columnName pf) = Some v
       \<and> (\<exists>stored. insert_entity svc sf now Acknowledged coll entity =
              (Inr stored, tick sf now, coll\<lparr>docs := docs coll @ [stored], nextOid := nextOid coll + 1\<rparr>)
            \<and> map_of stored (columnName pf) = Some v)
       \<and> (\<exists>r sf' stored. insertMany svc sf now_at Acknowledged coll entities flag =
              (Inr r, sf', coll\<lparr>docs := docs coll @ stored, nextOid := nextOid coll + length entities\<rparr>)
            \<and> map (\<lambda>d. map_of d (columnName pf)) stored = map (\<lambda>e. map_of e (columnName pf)) entities)"
proof (intro conjI)
  show "map_of (spread [(columnName pf, VStr gid)] entity) (columnName pf) = Some v"
    using assms(7) by (simp add: map_of_spread[OF assms(6)])
  show "\<exists>stored. insert_entity svc sf now Acknowledged coll entity =
              (Inr stored, tick sf now, coll\<lparr>docs := docs coll @ [stored], nextOid := nextOid coll + 1\<rparr>)
            \<and> map_of stored (columnName pf) = Some v"
    by (rule insert_entity_keeps[OF assms(1-4,6,7)])
  show "\<exists>r sf' stored. insertMany svc sf now_at Acknowledged coll entities flag =
              (Inr r, sf', coll\<lparr>docs := docs coll @ stored, nextOid := nextOid coll + length entities\<rparr>)
            \<and> map (\<lambda>d. map_of d (columnName pf)) stored = map (\<lambda>e. map_of e (columnName pf)) entities"
    by (rule insertMany_keeps[OF assms(1-3,5,8)])
qed

text \<open>
  Inserting \<open>{id: 'mine', name: 'a'}\<close> stores a document whose \<open>id\<close> is \<open>mine\<close>, and
  inserting it together with \<open>{id: 'yours'}\<close> stores two documents with these two keys.
\<close>

theorem caller_supplied_primary_key_is_kept_witness:
  "(\<exists>stored. insert_entity nameService demo 1793655420000 Acknowledged emptyColl
       [(''id'', VStr ''mine''), (''name'', VStr ''a'')] =
       (Inr stored, tick demo 1793655420000,
        emptyColl\<lparr>docs := docs emptyColl @ [stored], nextOid := nextOid emptyColl + 1\<rparr>)
     \<and> map_of stored ''id'' = Some (VStr ''mine''))
   \<and> (\<exists>r sf' stored. insertMany nameService demo (\<lambda>i. 1793655420000) Acknowledged emptyColl
       [[(''id'', VStr ''mine''), (''name'', VStr ''a'')], [(''id'', VStr ''yours'')]] True =
       (Inr r, sf', emptyColl\<lparr>docs := docs emptyColl @ stored, nextOid := nextOid emptyColl + 2\<rparr>)
     \<and> map (\<lambda>d. map_of d ''id'') stored = [Some (VStr ''mine''), Some (VStr ''yours'')])"
  using caller_supplied_primary_key_is_kept[OF nameService_pf _ demo_digits,
      of 1793655420000 "\<lambda>i. 1793655420000" "[(''id'', VStr ''mine''), (''name'', VStr ''a'')]"
         "VStr ''mine''" "[[(''id'', VStr ''mine''), (''name'', VStr ''a'')], [(''id'', VStr ''yours'')]]"
         "[]" emptyColl True]
  by (simp add: demo_fields epoch_def)

text \<open>
  C10. For every params object whose \<open>hint\<close> is set to an object, \<open>count(params)\<close> fails
  with a TypeError: in counting mode \<open>createQuery\<close> holds the result of \<open>countDocuments\<close>,
  which has no \<open>hint\<close> method. The same holds for every hint that the test
  \<open>if (params.hint)\<close> accepts, such as the name of an index. Without a hint, \<open>count\<close> gives the number of documents that
  match the translated query, the very query that \<open>find\<close> uses when no sort, offset or limit
  is given.
\<close>

theorem count_with_hint_fails:
  "(\<forall>h. p_hint ps = Some (VObj h) \<longrightarrow> count ext svc coll (Some ps) = Inl TypeError)
   \<and> (\<forall>h. p_hint ps = Some h \<and> truthy h \<longrightarrow> count ext svc coll (Some ps) = Inl TypeError)
   \<and> (\<forall>q. p_hint ps = None \<and> parseParams svc ps = Inr q \<longrightarrow>
         count ext svc coll (Some ps) = Inr (length (filter (mongoMatches ext q) (docs coll)))
       \<and> find_entities ext order svc coll
           (Some (ps\<lparr>p_sort := None, p_collation := None, p_offset := None, p_limit := None\<rparr>)) =
         Inr (filter (mongoMatches ext q) (docs coll)))"
  using count_hint_fails[of ps _ ext svc coll] truthy_object count_no_hint[of ps svc _ ext coll]
    find_no_paging[of ps svc _ ext order coll]
  by blast

text \<open>With a hint the count of the filter \<open>{status: true}\<close> fails; without it the count is 1.\<close>

theorem count_with_hint_fails_witness:
  "count (\<lambda>q d. False) statusService statusDocs
      (Some (noParams\<lparr>p_filter := Some [(''status'', VBool True)], p_hint := Some (VObj [(''status'', VNum 1)])\<rparr>))
     = Inl TypeError
   \<and> count (\<lambda>q d. False) statusService statusDocs
      (Some (noParams\<lparr>p_filter := Some [(''status'', VBool True)]\<rparr>)) = Inr 1"
proof -
  have pf: "processFilterParams statusService (Some [(''status'', VBool True)])
      = Inr [VObj [(''status'', VBool True)]]"
    by (rule processFilterParams_strict)
       (simp_all add: status_filterable isMatchOf_def truthy_def isArray_def typeof_def)
  note pp = parseParams_only_filter[OF pf]
  have a: "count (\<lambda>q d. False) statusService statusDocs
      (Some (noParams\<lparr>p_filter := Some [(''status'', VBool True)], p_hint := Some (VObj [(''status'', VNum 1)])\<rparr>))
     = Inl TypeError"
    using count_with_hint_fails[THEN conjunct1, of
        "noParams\<lparr>p_filter := Some [(''status'', VBool True)], p_hint := Some (VObj [(''status'', VNum 1)])\<rparr>"]
    by simp
  have b: "count (\<lambda>q d. False) statusService statusDocs
      (Some (noParams\<lparr>p_filter := Some [(''status'', VBool True)]\<rparr>)) =
      Inr (length (filter (mongoMatches (\<lambda>q d. False) (VObj [(''$and'', VArr [VObj [(''status'', VBool True)]])]))
          (docs statusDocs)))"
    using count_with_hint_fails[THEN conjunct2, THEN conjunct2, of "noParams\<lparr>p_filter := Some [(''status'', VBool True)]\<rparr>"
        statusService "(\<lambda>q d. False)" statusDocs] pp
    by (simp add: noParams_def)
  show ?thesis using a b
    by (simp add: statusDocs_def eqMatch_def isOperatorKey_def isLiteral_def)
qed

end
